theory Spec2Isabelle
  imports Main
begin


section \<open>The LRU cache of internal/cache/lru.go\<close>

text \<open>
  The cache is a pointer structure: a map from keys to nodes and a doubly linked list
  of the same nodes, with a head (most recently used) and a tail (least recently used)
  pointer.  Nodes live in a store addressed by natural numbers; a Go pointer is an
  \<open>addr option\<close> whose \<open>None\<close> is \<open>nil\<close>.  A new node takes the next unused
  address, as \<open>&node{...}\<close> yields a pointer distinct from every live one.  Nodes the
  cache no longer points to stay in the store, unreachable (Go collects them).

  A nil dereference is a run-time panic in Go; the operations that can reach one
  return \<open>error + _\<close> with \<open>Inl NilDereference\<close>.

  Go's \<open>int\<close> is modelled by \<open>int\<close>: \<open>size\<close> counts the linked nodes and only moves
  by one, so it stays far from the 64-bit bounds on any machine that can hold the nodes
  (it is at most the number of Puts made, as shown with the size bound below).
  The mutex makes each exported operation atomic; the model is the sequential
  behaviour of one operation under the lock.
\<close>

type_synonym addr = nat

type_synonym bytes = string

record ProxyItem =
  Status :: string
  Header :: string
  Body :: bytes

record node =
  node_key :: string
  node_value :: "ProxyItem option"
  node_next :: "addr option"
  node_prev :: "addr option"

record LRUCache =
  size_c :: int
  capacity :: int
  head :: "addr option"
  tail :: "addr option"
  items :: "string \<rightharpoonup> addr"
  heap :: "addr \<Rightarrow> node"
  alloc :: addr

datatype error = NilDereference

definition zero_node :: node where
  "zero_node = \<lparr>node_key = [], node_value = None, node_next = None, node_prev = None\<rparr>"

definition NewLRUCache :: "int \<Rightarrow> LRUCache" where
  "NewLRUCache cap =
     \<lparr>size_c = 0, capacity = cap, head = None, tail = None, items = Map.empty,
      heap = (\<lambda>_. zero_node), alloc = 0\<rparr>"

text \<open>Field assignments \<open>n.next = v\<close>, \<open>n.prev = v\<close>, \<open>n.value = v\<close> through a non-nil pointer.\<close>

definition set_next :: "LRUCache \<Rightarrow> addr \<Rightarrow> addr option \<Rightarrow> LRUCache" where
  "set_next c a v = c\<lparr>heap := (heap c)(a := (heap c a)\<lparr>node_next := v\<rparr>)\<rparr>"

definition set_prev :: "LRUCache \<Rightarrow> addr \<Rightarrow> addr option \<Rightarrow> LRUCache" where
  "set_prev c a v = c\<lparr>heap := (heap c)(a := (heap c a)\<lparr>node_prev := v\<rparr>)\<rparr>"

definition set_value :: "LRUCache \<Rightarrow> addr \<Rightarrow> ProxyItem option \<Rightarrow> LRUCache" where
  "set_value c a v = c\<lparr>heap := (heap c)(a := (heap c a)\<lparr>node_value := v\<rparr>)\<rparr>"

text \<open>
  \<open>removeNode\<close>: the four cases of the source in its order, then \<open>n.prev = nil\<close> and
  \<open>n.next = nil\<close>.  Only the middle case dereferences \<open>n.prev\<close> and \<open>n.next\<close> unguarded;
  \<open>n.next\<close> is read after \<open>n.prev.next\<close> was written.
\<close>

definition removeNode :: "LRUCache \<Rightarrow> addr \<Rightarrow> error + LRUCache" where
  "removeNode c n =
     (case
        (if head c = Some n \<and> tail c = Some n then
           Inr (c\<lparr>head := None, tail := None\<rparr>)
         else if Some n = head c then
           (let c1 = c\<lparr>head := node_next (heap c n)\<rparr> in
            case head c1 of
              None \<Rightarrow> Inr c1
            | Some h \<Rightarrow> Inr (set_prev c1 h None))
         else if Some n = tail c then
           (let c1 = c\<lparr>tail := node_prev (heap c n)\<rparr> in
            case tail c1 of
              None \<Rightarrow> Inr c1
            | Some t \<Rightarrow> Inr (set_next c1 t None))
         else
           (case node_prev (heap c n) of
              None \<Rightarrow> Inl NilDereference
            | Some p \<Rightarrow>
                (let c1 = set_next c p (node_next (heap c n)) in
                 case node_next (heap c1 n) of
                   None \<Rightarrow> Inl NilDereference
                 | Some q \<Rightarrow> Inr (set_prev c1 q (node_prev (heap c1 n))))))
      of
        Inl e \<Rightarrow> Inl e
      | Inr c2 \<Rightarrow> Inr (set_next (set_prev c2 n None) n None))"

definition moveToFront :: "LRUCache \<Rightarrow> addr \<Rightarrow> LRUCache" where
  "moveToFront c n =
     (if head c = Some n then c
      else
        (case head c of
           None \<Rightarrow> set_next (set_prev (c\<lparr>head := Some n, tail := Some n\<rparr>) n None) n None
         | Some h \<Rightarrow>
             set_prev ((set_prev (set_next c n (Some h)) h (Some n))\<lparr>head := Some n\<rparr>) n None))"

definition evictLRU :: "LRUCache \<Rightarrow> error + LRUCache" where
  "evictLRU c =
     (case tail c of
        None \<Rightarrow> Inr c
      | Some t \<Rightarrow>
          (case removeNode (c\<lparr>items := (items c)(node_key (heap c t) := None)\<rparr>) t of
             Inl e \<Rightarrow> Inl e
           | Inr c1 \<Rightarrow> Inr (c1\<lparr>size_c := size_c c1 - 1\<rparr>)))"

text \<open>\<open>Get\<close> returns the pair of the source and the cache after the call.\<close>

definition Get :: "LRUCache \<Rightarrow> string \<Rightarrow> error + (bool \<times> ProxyItem option \<times> LRUCache)" where
  "Get c k =
     (case items c k of
        None \<Rightarrow> Inr (False, None, c)
      | Some n \<Rightarrow>
          (case removeNode c n of
             Inl e \<Rightarrow> Inl e
           | Inr c1 \<Rightarrow>
               (let c2 = moveToFront c1 n in Inr (True, node_value (heap c2 n), c2))))"

definition Put :: "LRUCache \<Rightarrow> string \<Rightarrow> ProxyItem option \<Rightarrow> error + LRUCache" where
  "Put c k v =
     (case items c k of
        Some existingNode \<Rightarrow>
          (case removeNode (set_value c existingNode v) existingNode of
             Inl e \<Rightarrow> Inl e
           | Inr c1 \<Rightarrow> Inr (moveToFront c1 existingNode))
      | None \<Rightarrow>
          (let newNode = alloc c;
               c1 = c\<lparr>heap := (heap c)(newNode :=
                        \<lparr>node_key = k, node_value = v, node_next = None, node_prev = None\<rparr>),
                      alloc := Suc newNode\<rparr>;
               c2 = c1\<lparr>items := (items c1)(k \<mapsto> newNode)\<rparr>;
               c3 = moveToFront c2 newNode;
               c4 = c3\<lparr>size_c := size_c c3 + 1\<rparr>;
               c5 = (if tail c4 = None then c4\<lparr>tail := Some newNode\<rparr> else c4)
           in if size_c c5 > capacity c5 then evictLRU c5 else Inr c5))"

definition Size :: "LRUCache \<Rightarrow> int" where
  "Size c = size_c c"

definition Capacity :: "LRUCache \<Rightarrow> int" where
  "Capacity c = capacity c"

text \<open>
  \<open>Display\<close> follows \<open>next\<close> from \<open>head\<close> until \<open>nil\<close> and prints each key.  The loop has
  no bound of its own (it would not end on a cyclic list), so the walk is a partial
  function: \<open>None\<close> is a walk that never ends.  The model returns the keys printed.
\<close>

partial_function (option) walk :: "(addr \<Rightarrow> node) \<Rightarrow> addr option \<Rightarrow> addr list option" where
  "walk h p =
     (case p of
        None \<Rightarrow> Some []
      | Some a \<Rightarrow> Option.bind (walk h (node_next (h a))) (\<lambda>as. Some (a # as)))"

definition Display :: "LRUCache \<Rightarrow> string list option" where
  "Display c = map_option (map (\<lambda>a. node_key (heap c a))) (walk (heap c) (head c))"

text \<open>A sequence of cache operations, run in order; a panic ends the run.\<close>

datatype cache_op = OpGet string | OpPut string "ProxyItem option"

fun apply_op :: "LRUCache \<Rightarrow> cache_op \<Rightarrow> error + LRUCache" where
  "apply_op c (OpGet k) = (case Get c k of Inl e \<Rightarrow> Inl e | Inr (_, _, c') \<Rightarrow> Inr c')"
| "apply_op c (OpPut k v) = Put c k v"

fun run :: "LRUCache \<Rightarrow> cache_op list \<Rightarrow> error + LRUCache" where
  "run c [] = Inr c"
| "run c (x # xs) = (case apply_op c x of Inl e \<Rightarrow> Inl e | Inr c' \<Rightarrow> run c' xs)"

declare walk.simps [code]

section \<open>The connection handler and the acceptor of proxy.go and main.go\<close>

text \<open>
  The network is the environment of the handler.  What \<open>net/http\<close> and \<open>net\<close> return
  (the parsed request, whether a dial or a write succeeds, the parsed response) is an
  input of the model; what the handler passes to \<open>Write\<close> is an output.  A Go string and
  a \<open>[]byte\<close> are both byte sequences, so both are \<open>string\<close> here.  Logging, deadlines
  and the closing of sockets have no effect on the values below and are left out.
\<close>

definition CRLF :: string where
  "CRLF = [CHR 0x0D, CHR 0x0A]"

text \<open>\<open>%d\<close> of \<open>fmt.Sprintf\<close>: an integer in decimal.\<close>

fun decimal :: "nat \<Rightarrow> string" where
  "decimal n = (if n < 10 then [''0123456789'' ! n] else decimal (n div 10) @ [''0123456789'' ! (n mod 10)])"

definition fmt_d :: "int \<Rightarrow> string" where
  "fmt_d i = (if i < 0 then CHR ''-'' # decimal (nat (- i)) else decimal (nat i))"

definition badGatewayBody :: string where
  "badGatewayBody = ''The target server is unavailable. Please try again later.''"

definition badGatewayResponse :: string where
  "badGatewayResponse =
     ''HTTP/1.1 502 Bad Gateway'' @ CRLF @
     ''Content-Type: text/plain'' @ CRLF @
     ''Content-Length: '' @ fmt_d (int (length badGatewayBody)) @ CRLF @
     ''Connection: close'' @ CRLF @
     CRLF @
     badGatewayBody"

text \<open>
  The fields of \<open>http.Request\<close> and \<open>http.Response\<close> that the handler reads.  A header
  map is the list of its entries in the order the \<open>range\<close> loop visits them (Go leaves
  that order open).  A body is the result of \<open>io.ReadAll\<close> on it.  \<open>RequestURI\<close> is the
  request-target of the inbound request line as the client sent it; \<open>Path\<close> and
  \<open>RawQuery\<close> are its parts before and after the question mark.
\<close>

datatype net_error = ParseFailed | DialFailed | ReadFailed | WriteFailed

record URL =
  Path :: string
  RawQuery :: string

record Request =
  Method :: string
  URL :: URL
  Proto :: string
  Host :: string
  Header_req :: "(string \<times> string list) list"
  Body_req :: "net_error + bytes"
  RequestURI :: string

record Response =
  Proto_resp :: string
  Status_resp :: string
  Header_resp :: "(string \<times> string list) list"
  Body_resp :: "net_error + bytes"

record net_env =
  parsed :: "net_error + Request"
  dial_ok :: bool
  origin_write_ok :: bool
  origin_response :: "net_error + Response"
  client_write_ok :: bool

definition generateCacheKey :: "Request \<Rightarrow> string" where
  "generateCacheKey req = Host req @ '':'' @ Path (URL req) @ '':'' @ Method req"

definition getCachedResponse :: "LRUCache \<Rightarrow> string \<Rightarrow> error + (ProxyItem option \<times> LRUCache)" where
  "getCachedResponse c key =
     (case Get c key of
        Inl e \<Rightarrow> Inl e
      | Inr (found, item, c') \<Rightarrow> Inr (if found \<and> item \<noteq> None then item else None, c'))"

text \<open>\<open>strings.Join\<close>.\<close>

fun Join :: "string list \<Rightarrow> string \<Rightarrow> string" where
  "Join [] sep = []"
| "Join [x] sep = x"
| "Join (x # y # zs) sep = x @ sep @ Join (y # zs) sep"

text \<open>The loop over a header map that both \<open>forwardRequest\<close> and \<open>prepareResponse\<close> run.\<close>

definition headerLines :: "(string \<times> string list) list \<Rightarrow> string" where
  "headerLines hs = concat (map (\<lambda>(key, values). key @ '': '' @ Join values '', '' @ CRLF) hs)"

text \<open>
  \<open>forwardRequest\<close>: the address dialled, the bytes passed to \<open>targetConn.Write\<close> (if the
  function gets that far) and the returned response or error.
\<close>

record forward_result =
  target :: string
  sent :: "bytes option"
  response :: "net_error + Response"

definition forwardRequest :: "net_env \<Rightarrow> Request \<Rightarrow> forward_result" where
  "forwardRequest env req =
     (let targetAddr = (if CHR '':'' \<in> set (Host req) then Host req else Host req @ '':80'') in
      if \<not> dial_ok env then \<lparr>target = targetAddr, sent = None, response = Inl DialFailed\<rparr>
      else
        (let requestLine = Method req @ '' '' @ Path (URL req) @ '' '' @ Proto req @ CRLF;
             hostHeader = ''Host: '' @ Host req @ CRLF;
             headers = headerLines (Header_req req)
         in case Body_req req of
              Inl e \<Rightarrow> \<lparr>target = targetAddr, sent = None, response = Inl ReadFailed\<rparr>
            | Inr body \<Rightarrow>
                (let fullRequest = requestLine @ hostHeader @ headers @ CRLF @ body in
                 if \<not> origin_write_ok env then
                   \<lparr>target = targetAddr, sent = Some fullRequest, response = Inl WriteFailed\<rparr>
                 else
                   (case origin_response env of
                      Inl e \<Rightarrow>
                        \<lparr>target = targetAddr, sent = Some fullRequest, response = Inl ReadFailed\<rparr>
                    | Inr resp \<Rightarrow>
                        \<lparr>target = targetAddr, sent = Some fullRequest, response = Inr resp\<rparr>))))"

definition prepareResponse :: "Response \<Rightarrow> string \<times> string \<times> bytes" where
  "prepareResponse resp =
     (let body = (case Body_resp resp of Inl e \<Rightarrow> [] | Inr b \<Rightarrow> b);
          headers = headerLines (Header_resp resp);
          statusLine = Proto_resp resp @ '' '' @ Status_resp resp @ CRLF
      in (statusLine, headers, body))"

definition cacheResponse :: "LRUCache \<Rightarrow> string \<Rightarrow> string \<Rightarrow> string \<Rightarrow> bytes \<Rightarrow> error + LRUCache" where
  "cacheResponse c key status headers body =
     Put c key (Some \<lparr>Status = status, Header = headers, Body = body\<rparr>)"

text \<open>
  \<open>handleConnection\<close>, for one connection: the byte strings passed to \<open>conn.Write\<close> on the
  client socket in order, the bytes passed to the origin, and the cache when the handler
  returns.  A panic of a cache operation is recovered by the deferred function and ends
  the handler; the cache is then \<open>Inl\<close> of the panic.
\<close>

record conn_result =
  written :: "bytes list"
  origin_sent :: "bytes option"
  cache_after :: "error + LRUCache"

definition handleConnection :: "LRUCache \<Rightarrow> net_env \<Rightarrow> conn_result" where
  "handleConnection c env =
     (case parsed env of
        Inl e \<Rightarrow> \<lparr>written = [], origin_sent = None, cache_after = Inr c\<rparr>
      | Inr request \<Rightarrow>
          (let cacheKey = generateCacheKey request in
           case getCachedResponse c cacheKey of
             Inl e \<Rightarrow> \<lparr>written = [], origin_sent = None, cache_after = Inl e\<rparr>
           | Inr (Some cachedItem, c1) \<Rightarrow>
               \<lparr>written = [Status cachedItem @ Header cachedItem @ CRLF @ Body cachedItem],
                origin_sent = None, cache_after = Inr c1\<rparr>
           | Inr (None, c1) \<Rightarrow>
               (let f = forwardRequest env request in
                case response f of
                  Inl e \<Rightarrow>
                    \<lparr>written = [badGatewayResponse], origin_sent = sent f, cache_after = Inr c1\<rparr>
                | Inr resp \<Rightarrow>
                    (case prepareResponse resp of
                       (statusLine, headers, body) \<Rightarrow>
                         (let responseData = statusLine @ headers @ CRLF @ body in
                          if \<not> client_write_ok env then
                            \<lparr>written = [responseData], origin_sent = sent f,
                             cache_after = Inr c1\<rparr>
                          else
                            \<lparr>written = [responseData], origin_sent = sent f,
                             cache_after = cacheResponse c1 cacheKey statusLine headers body\<rparr>)))))"

text \<open>
  The accept loop of \<open>Start\<close>.  Each call of \<open>listener.Accept\<close> yields a connection, an
  error for which \<open>errors.Is(err, net.ErrClosed)\<close> holds, or another error.  The loop has
  no bound; the model runs it on the results of the Accept calls made so far, and
  \<open>StillAccepting\<close> is the loop blocked in the next call.  The state is what the loop
  leaves behind: the lines of the error logger and the connections handed to a new
  goroutine.
\<close>

datatype accept_result = Accepted nat | ErrClosed | OtherError string

datatype loop_outcome = Returned "string option" | StillAccepting

record accept_state =
  error_log :: "string list"
  dispatched :: "nat list"

fun acceptLoop :: "accept_result list \<Rightarrow> accept_state \<Rightarrow> loop_outcome \<times> accept_state" where
  "acceptLoop [] s = (StillAccepting, s)"
| "acceptLoop (ErrClosed # rest) s = (Returned None, s)"
| "acceptLoop (OtherError msg # rest) s =
     acceptLoop rest (s\<lparr>error_log := error_log s @ [''Failed to accept connection: '' @ msg]\<rparr>)"
| "acceptLoop (Accepted conn # rest) s =
     acceptLoop rest (s\<lparr>dispatched := dispatched s @ [conn]\<rparr>)"

text \<open>
  \<open>Start\<close>: \<open>net.Listen\<close> on the configured port either fails, and \<open>Start\<close> returns the
  wrapped error, or yields the listener on which the loop runs.
\<close>

definition Start :: "string \<Rightarrow> string option \<Rightarrow> accept_result list \<Rightarrow> loop_outcome \<times> accept_state" where
  "Start port listen_err evs =
     (case listen_err of
        Some err \<Rightarrow>
          (Returned (Some (''failed to create listener on :'' @ port @ '': '' @ err)),
           \<lparr>error_log = [], dispatched = []\<rparr>)
      | None \<Rightarrow> acceptLoop evs \<lparr>error_log = [], dispatched = []\<rparr>)"

text \<open>The request line of the inbound request, as the client sent it.\<close>

definition inboundRequestLine :: "Request \<Rightarrow> string" where
  "inboundRequestLine req = Method req @ '' '' @ RequestURI req @ '' '' @ Proto req @ CRLF"

subsection \<open>Concrete requests and environments\<close>

text \<open>
  The request \<open>GET /foo?x=1 HTTP/1.1\<close> for host \<open>example.test\<close> with one header sent
  twice and no body, as \<open>http.ReadRequest\<close> delivers it; the request
  \<open>GET /a%20b HTTP/1.1\<close>, whose \<open>Path\<close> is the percent-decoded \<open>/a b\<close>; the first request
  without the query string; and an environment in which the origin answers \<open>200 OK\<close> with body
  \<open>hi\<close>, where the request read and whether the dial and the write to the client
  succeed are parameters.
\<close>

definition query_request :: Request where
  "query_request =
     \<lparr>Method = ''GET'', URL = \<lparr>Path = ''/foo'', RawQuery = ''x=1''\<rparr>, Proto = ''HTTP/1.1'',
      Host = ''example.test'', Header_req = [(''Accept'', [''text/html'', ''text/plain''])],
      Body_req = Inr [], RequestURI = ''/foo?x=1''\<rparr>"

definition escaped_request :: Request where
  "escaped_request =
     \<lparr>Method = ''GET'', URL = \<lparr>Path = ''/a b'', RawQuery = []\<rparr>, Proto = ''HTTP/1.1'',
      Host = ''example.test'', Header_req = [], Body_req = Inr [],
      RequestURI = ''/a%20b''\<rparr>"

definition plain_request :: Request where
  "plain_request =
     \<lparr>Method = ''GET'', URL = \<lparr>Path = ''/foo'', RawQuery = []\<rparr>, Proto = ''HTTP/1.1'',
      Host = ''example.test'', Header_req = [(''Accept'', [''text/html'', ''text/plain''])],
      Body_req = Inr [], RequestURI = ''/foo''\<rparr>"

definition example_response :: Response where
  "example_response =
     \<lparr>Proto_resp = ''HTTP/1.1'', Status_resp = ''200 OK'',
      Header_resp = [(''Content-Length'', [''2''])], Body_resp = Inr ''hi''\<rparr>"

definition example_env :: "Request \<Rightarrow> bool \<Rightarrow> bool \<Rightarrow> net_env" where
  "example_env req dial client =
     \<lparr>parsed = Inr req, dial_ok = dial, origin_write_ok = True,
      origin_response = Inr example_response, client_write_ok = client\<rparr>"

section \<open>Specification-level notions used in the proofs\<close>

subsection \<open>Views of the store, linked paths and the cache invariant\<close>

text \<open>The store seen one field at a time.\<close>

definition next_of :: "LRUCache \<Rightarrow> addr \<Rightarrow> addr option" where
  "next_of c a = node_next (heap c a)"

definition prev_of :: "LRUCache \<Rightarrow> addr \<Rightarrow> addr option" where
  "prev_of c a = node_prev (heap c a)"

definition key_of :: "LRUCache \<Rightarrow> addr \<Rightarrow> string" where
  "key_of c a = node_key (heap c a)"

definition value_of :: "LRUCache \<Rightarrow> addr \<Rightarrow> ProxyItem option" where
  "value_of c a = node_value (heap c a)"

text \<open>
  \<open>path f p xs q\<close>: starting at pointer \<open>p\<close> and following the link \<open>f\<close>, one visits
  exactly the nodes \<open>xs\<close> in order and ends at pointer \<open>q\<close>.
\<close>

fun path :: "(addr \<Rightarrow> addr option) \<Rightarrow> addr option \<Rightarrow> addr list \<Rightarrow> addr option \<Rightarrow> bool" where
  "path f p [] q = (p = q)"
| "path f p (a # as) q = (p = Some a \<and> path f (f a) as q)"

text \<open>
  The nodes \<open>xs\<close>, most recently used first, form the doubly linked list of the cache:
  \<open>next\<close> leads from \<open>head\<close> through \<open>xs\<close> to \<open>nil\<close>, \<open>prev\<close> leads from \<open>tail\<close> through
  \<open>xs\<close> backwards to \<open>nil\<close>, no node occurs twice and every node is allocated.
\<close>

definition well_linked :: "LRUCache \<Rightarrow> addr list \<Rightarrow> bool" where
  "well_linked c xs =
     (path (next_of c) (head c) xs None \<and> path (prev_of c) (tail c) (rev xs) None \<and>
      distinct xs \<and> (\<forall>a \<in> set xs. a < alloc c))"

text \<open>The map holds exactly the listed nodes, each under its own key.\<close>

definition indexed :: "LRUCache \<Rightarrow> addr list \<Rightarrow> bool" where
  "indexed c xs = (\<forall>k a. (items c k = Some a) = (a \<in> set xs \<and> key_of c a = k))"

definition cache_inv :: "LRUCache \<Rightarrow> addr list \<Rightarrow> bool" where
  "cache_inv c xs =
     (well_linked c xs \<and> indexed c xs \<and> size_c c = int (length xs) \<and>
      size_c c \<le> max 0 (capacity c))"

definition entries :: "LRUCache \<Rightarrow> addr list \<Rightarrow> (string \<times> ProxyItem option) list" where
  "entries c xs = map (\<lambda>a. (key_of c a, value_of c a)) xs"

subsection \<open>The recency list of the specification\<close>

text \<open>
  The specification's cache, written from its words: a list of entries from most to
  least recently used.  A hit moves the entry to the front; a Put of a present key
  replaces the value and moves the entry to the front; a Put of a new key inserts at
  the front and, if that exceeds the capacity, drops the least recently used entry.
  The pointer structure of the source is compared with it.
\<close>

definition lru_touch :: "string \<Rightarrow> (string \<times> 'v) list \<Rightarrow> (string \<times> 'v) list" where
  "lru_touch k es =
     (case map_of es k of
        None \<Rightarrow> es
      | Some v \<Rightarrow> (k, v) # filter (\<lambda>e. fst e \<noteq> k) es)"

definition lru_put :: "int \<Rightarrow> (string \<times> 'v) list \<Rightarrow> string \<Rightarrow> 'v \<Rightarrow> (string \<times> 'v) list" where
  "lru_put cap es k v =
     (if k \<in> fst ` set es then (k, v) # filter (\<lambda>e. fst e \<noteq> k) es
      else if int (length es) + 1 > cap then butlast ((k, v) # es)
      else (k, v) # es)"

fun lru_apply ::
  "int \<Rightarrow> (string \<times> ProxyItem option) list \<Rightarrow> cache_op \<Rightarrow> (string \<times> ProxyItem option) list" where
  "lru_apply cap es (OpGet k) = lru_touch k es"
| "lru_apply cap es (OpPut k v) = lru_put cap es k v"

text \<open>The cache \<open>c\<close> represents the recency list \<open>es\<close>.\<close>

definition abstracts :: "LRUCache \<Rightarrow> (string \<times> ProxyItem option) list \<Rightarrow> bool" where
  "abstracts c es = (\<exists>xs. cache_inv c xs \<and> entries c xs = es)"

section \<open>The cache: the pointer structure implements the recency list\<close>

lemma path_append: "path f p (xs @ ys) q = (\<exists>m. path f p xs m \<and> path f m ys q)"
  by (induction xs arbitrary: p) auto

lemma path_upd: "a \<notin> set xs \<Longrightarrow> path (f(a := v)) p xs q = path f p xs q"
  by (induction xs arbitrary: p) auto

lemma path_unlink:
  assumes "path f p (ys @ n # zs) q" "distinct (ys @ n # zs)"
  shows "path ((if ys = [] then f else f(last ys := f n))(n := v))
           (if ys = [] then f n else p) (ys @ zs) q"
proof (cases ys rule: rev_cases)
  case Nil
  with assms show ?thesis by (simp add: path_upd)
next
  case (snoc ys' y)
  with assms have a: "path f p ys' (Some y)" and b: "f y = Some n" and c: "path f (f n) zs q"
    by (auto simp: path_append)
  from assms snoc have d: "y \<notin> set ys'" "n \<notin> set ys'" "y \<notin> set zs" "n \<notin> set zs" "y \<noteq> n"
    by auto
  have "path ((f(y := f n))(n := v)) p ys' (Some y)"
    using a d by (simp add: path_upd)
  moreover have "path ((f(y := f n))(n := v)) (f n) zs q"
    using c d by (simp add: path_upd)
  ultimately show ?thesis using snoc d
    by (auto simp: path_append)
qed

lemma views_simps [simp]:
  "next_of (set_next c a v) = (next_of c)(a := v)"
  "next_of (set_prev c a v) = next_of c"
  "next_of (set_value c a w) = next_of c"
  "prev_of (set_prev c a v) = (prev_of c)(a := v)"
  "prev_of (set_next c a v) = prev_of c"
  "prev_of (set_value c a w) = prev_of c"
  "key_of (set_next c a v) = key_of c"
  "key_of (set_prev c a v) = key_of c"
  "key_of (set_value c a w) = key_of c"
  "value_of (set_next c a v) = value_of c"
  "value_of (set_prev c a v) = value_of c"
  "value_of (set_value c a w) = (value_of c)(a := w)"
  by (auto simp: next_of_def prev_of_def key_of_def value_of_def set_next_def set_prev_def
      set_value_def fun_eq_iff)

lemma views_fields [simp]:
  "next_of (c\<lparr>head := x\<rparr>) = next_of c" "next_of (c\<lparr>tail := x\<rparr>) = next_of c"
  "next_of (c\<lparr>items := m\<rparr>) = next_of c" "next_of (c\<lparr>size_c := s\<rparr>) = next_of c"
  "prev_of (c\<lparr>head := x\<rparr>) = prev_of c" "prev_of (c\<lparr>tail := x\<rparr>) = prev_of c"
  "prev_of (c\<lparr>items := m\<rparr>) = prev_of c" "prev_of (c\<lparr>size_c := s\<rparr>) = prev_of c"
  "key_of (c\<lparr>head := x\<rparr>) = key_of c" "key_of (c\<lparr>tail := x\<rparr>) = key_of c"
  "key_of (c\<lparr>items := m\<rparr>) = key_of c" "key_of (c\<lparr>size_c := s\<rparr>) = key_of c"
  "value_of (c\<lparr>head := x\<rparr>) = value_of c" "value_of (c\<lparr>tail := x\<rparr>) = value_of c"
  "value_of (c\<lparr>items := m\<rparr>) = value_of c" "value_of (c\<lparr>size_c := s\<rparr>) = value_of c"
  by (auto simp: next_of_def prev_of_def key_of_def value_of_def fun_eq_iff)

lemma set_fields [simp]:
  "head (set_next c a v) = head c" "tail (set_next c a v) = tail c"
  "items (set_next c a v) = items c" "size_c (set_next c a v) = size_c c"
  "capacity (set_next c a v) = capacity c" "alloc (set_next c a v) = alloc c"
  "head (set_prev c a v) = head c" "tail (set_prev c a v) = tail c"
  "items (set_prev c a v) = items c" "size_c (set_prev c a v) = size_c c"
  "capacity (set_prev c a v) = capacity c" "alloc (set_prev c a v) = alloc c"
  "head (set_value c a w) = head c" "tail (set_value c a w) = tail c"
  "items (set_value c a w) = items c" "size_c (set_value c a w) = size_c c"
  "capacity (set_value c a w) = capacity c" "alloc (set_value c a w) = alloc c"
  by (simp_all add: set_next_def set_prev_def set_value_def)

lemma removeNode_views:
  assumes "well_linked c (ys @ n # zs)"
  shows "\<exists>c'. removeNode c n = Inr c' \<and>
           next_of c' = (if ys = [] then next_of c else (next_of c)(last ys := next_of c n))(n := None) \<and>
           head c' = (if ys = [] then next_of c n else head c) \<and>
           prev_of c' = (if zs = [] then prev_of c else (prev_of c)(hd zs := prev_of c n))(n := None) \<and>
           tail c' = (if zs = [] then prev_of c n else tail c) \<and>
           key_of c' = key_of c \<and> value_of c' = value_of c \<and> items c' = items c \<and>
           size_c c' = size_c c \<and> capacity c' = capacity c \<and> alloc c' = alloc c"
proof -
  let ?xs = "ys @ n # zs"
  from assms have nx: "path (next_of c) (head c) ?xs None"
    and pv: "path (prev_of c) (tail c) (rev ?xs) None" and d: "distinct ?xs"
    by (auto simp: well_linked_def)
  have hd: "head c = Some (hd (ys @ [n]))"
    using nx by (cases ys) auto
  have tl: "tail c = Some (last (n # zs))"
    using pv by (cases zs rule: rev_cases) auto
  have nn: "next_of c n = (if zs = [] then None else Some (hd zs))"
    using nx by (cases zs) (auto simp: path_append)
  have pn: "prev_of c n = (if ys = [] then None else Some (last ys))"
    using pv by (cases ys rule: rev_cases) (auto simp: path_append)
  have ne: "ys \<noteq> [] \<Longrightarrow> hd ys \<noteq> n \<and> last ys \<noteq> n" "zs \<noteq> [] \<Longrightarrow> hd zs \<noteq> n \<and> last zs \<noteq> n"
    using d by (auto dest: hd_in_set last_in_set)
  note raw = nn [unfolded next_of_def] pn [unfolded prev_of_def]
  show ?thesis
  proof (cases "ys = []")
    case y: True
    show ?thesis
    proof (cases "zs = []")
      case True
      with y hd tl nn pn show ?thesis
        by (simp add: removeNode_def)
    next
      case False
      with y hd tl nn pn ne raw show ?thesis
        by (simp add: removeNode_def Let_def)
    qed
  next
    case y: False
    then have hy: "hd (ys @ [n]) = hd ys" by simp
    show ?thesis
    proof (cases "zs = []")
      case True
      with y hd tl nn pn ne raw hy show ?thesis
        by (simp add: removeNode_def Let_def)
    next
      case False
      with y hd tl nn pn ne raw hy show ?thesis
        by (simp add: removeNode_def Let_def next_of_def [symmetric] prev_of_def [symmetric])
    qed
  qed
qed

lemma removeNode_linked:
  assumes "well_linked c (ys @ n # zs)"
  shows "\<exists>c'. removeNode c n = Inr c' \<and> well_linked c' (ys @ zs) \<and>
           key_of c' = key_of c \<and> value_of c' = value_of c \<and> items c' = items c \<and>
           size_c c' = size_c c \<and> capacity c' = capacity c \<and> alloc c' = alloc c"
proof -
  from removeNode_views [OF assms] obtain c' where r: "removeNode c n = Inr c'"
    and nx: "next_of c' = (if ys = [] then next_of c else (next_of c)(last ys := next_of c n))(n := None)"
    and hd: "head c' = (if ys = [] then next_of c n else head c)"
    and pv: "prev_of c' = (if zs = [] then prev_of c else (prev_of c)(hd zs := prev_of c n))(n := None)"
    and tl: "tail c' = (if zs = [] then prev_of c n else tail c)"
    and rest: "key_of c' = key_of c" "value_of c' = value_of c" "items c' = items c"
      "size_c c' = size_c c" "capacity c' = capacity c" "alloc c' = alloc c"
    by blast
  from assms have p1: "path (next_of c) (head c) (ys @ n # zs) None"
    and p2: "path (prev_of c) (tail c) (rev zs @ n # rev ys) None"
    and d: "distinct (ys @ n # zs)" and b: "\<forall>a \<in> set (ys @ n # zs). a < alloc c"
    by (auto simp: well_linked_def)
  have d': "distinct (rev zs @ n # rev ys)" using d by auto
  have "path (next_of c') (head c') (ys @ zs) None"
    unfolding nx hd by (rule path_unlink [OF p1 d])
  moreover have "path (prev_of c') (tail c') (rev (ys @ zs)) None"
    using path_unlink [OF p2 d', of None] unfolding pv tl
    by (cases "zs = []") (simp_all add: last_rev)
  ultimately have "well_linked c' (ys @ zs)"
    using d b rest by (auto simp: well_linked_def)
  with r rest show ?thesis by blast
qed

lemma moveToFront_linked:
  assumes "well_linked c xs" "n \<notin> set xs" "n < alloc c"
  shows "well_linked (moveToFront c n) (n # xs) \<and>
           key_of (moveToFront c n) = key_of c \<and> value_of (moveToFront c n) = value_of c \<and>
           items (moveToFront c n) = items c \<and> size_c (moveToFront c n) = size_c c \<and>
           capacity (moveToFront c n) = capacity c \<and> alloc (moveToFront c n) = alloc c"
proof (cases xs)
  case Nil
  with assms show ?thesis
    by (auto simp: well_linked_def moveToFront_def)
next
  case (Cons h t)
  with assms have hd: "head c = Some h" and hn: "h \<noteq> n" "n \<notin> set t" "h \<notin> set t"
    and p1: "path (next_of c) (next_of c h) t None"
    and p2: "path (prev_of c) (tail c) (rev t) (Some h)" "prev_of c h = None"
    by (auto simp: well_linked_def path_append)
  show ?thesis
    using assms Cons hd hn p1 p2
    by (auto simp: well_linked_def moveToFront_def path_append path_upd)
qed

lemma indexed_inj: "indexed c xs \<Longrightarrow> a \<in> set xs \<Longrightarrow> b \<in> set xs \<Longrightarrow> key_of c a = key_of c b \<Longrightarrow> a = b"
  unfolding indexed_def by (metis option.inject)

lemma indexed_None: "indexed c xs \<Longrightarrow> (items c k = None) = (\<forall>a \<in> set xs. key_of c a \<noteq> k)"
  unfolding indexed_def by (metis not_Some_eq)

lemma well_linked_last: "well_linked c xs \<Longrightarrow> xs \<noteq> [] \<Longrightarrow> tail c = Some (last xs)"
  by (cases xs rule: rev_cases) (auto simp: well_linked_def)

lemma evictLRU_inv:
  assumes wl: "well_linked c xs" and ix: "indexed c xs" and ne: "xs \<noteq> []"
  shows "\<exists>c'. evictLRU c = Inr c' \<and> well_linked c' (butlast xs) \<and> indexed c' (butlast xs) \<and>
           size_c c' = size_c c - 1 \<and> key_of c' = key_of c \<and> value_of c' = value_of c \<and>
           capacity c' = capacity c \<and> alloc c' = alloc c"
proof -
  let ?t = "last xs"
  let ?c0 = "c\<lparr>items := (items c)(node_key (heap c ?t) := None)\<rparr>"
  have xs: "xs = butlast xs @ ?t # []" using ne by simp
  have tl: "tail c = Some ?t" by (rule well_linked_last [OF wl ne])
  have "well_linked ?c0 xs" using wl by (simp add: well_linked_def)
  then have "well_linked ?c0 (butlast xs @ ?t # [])" using xs by simp
  from removeNode_linked [OF this] obtain c1 where r: "removeNode ?c0 ?t = Inr c1"
    and w1: "well_linked c1 (butlast xs)" and k1: "key_of c1 = key_of c" "value_of c1 = value_of c"
    and i1: "items c1 = (items c)(key_of c ?t := None)"
    and s1: "size_c c1 = size_c c" "capacity c1 = capacity c" "alloc c1 = alloc c"
    by (auto simp: key_of_def)
  let ?c' = "c1\<lparr>size_c := size_c c1 - 1\<rparr>"
  have ev: "evictLRU c = Inr ?c'" using tl r by (simp add: evictLRU_def)
  have d: "distinct xs" using wl by (simp add: well_linked_def)
  then have tb: "?t \<notin> set (butlast xs)"
    using xs by (metis distinct_append disjoint_iff list.set_intros(1))
  have mem: "\<And>a. a \<in> set xs \<longleftrightarrow> a \<in> set (butlast xs) \<or> a = ?t"
    using xs by (metis in_set_butlastD insert_iff list.simps(15) set_append Un_iff empty_set empty_iff)
  have "indexed ?c' (butlast xs)"
    unfolding indexed_def
  proof (intro allI)
    fix k a
    show "(items ?c' k = Some a) = (a \<in> set (butlast xs) \<and> key_of ?c' a = k)"
    proof (cases "k = key_of c ?t")
      case True
      have "\<not> (a \<in> set (butlast xs) \<and> key_of c a = key_of c ?t)"
        using indexed_inj [OF ix, of a ?t] tb mem ne by auto
      with True show ?thesis by (simp add: i1 k1)
    next
      case False
      have "(items c k = Some a) = (a \<in> set xs \<and> key_of c a = k)"
        using ix by (simp add: indexed_def)
      with False show ?thesis using mem by (auto simp: i1 k1)
    qed
  qed
  moreover have "well_linked ?c' (butlast xs)" using w1 by (simp add: well_linked_def)
  ultimately show ?thesis using ev k1 s1 by simp
qed

lemma entries_split:
  assumes ix: "indexed c (ys @ n # zs)" and d: "distinct (ys @ n # zs)"
  shows "map_of (entries c (ys @ n # zs)) (key_of c n) = Some (value_of c n)"
    and "filter (\<lambda>e. fst e \<noteq> key_of c n) (entries c (ys @ n # zs)) = entries c (ys @ zs)"
proof -
  have other: "\<And>a. a \<in> set ys \<union> set zs \<Longrightarrow> key_of c a \<noteq> key_of c n"
    using indexed_inj [OF ix, of _ n] d by auto
  have "key_of c n \<notin> fst ` set (entries c ys)"
  proof
    assume "key_of c n \<in> fst ` set (entries c ys)"
    then obtain a where "a \<in> set ys" "key_of c a = key_of c n"
      by (auto simp: entries_def)
    with other [of a] show False by simp
  qed
  then have "map_of (entries c ys) (key_of c n) = None"
    by (simp add: map_of_eq_None_iff)
  then show "map_of (entries c (ys @ n # zs)) (key_of c n) = Some (value_of c n)"
    by (simp add: entries_def map_add_def)
  have "\<And>as. (\<And>a. a \<in> set as \<Longrightarrow> key_of c a \<noteq> key_of c n) \<Longrightarrow>
          filter (\<lambda>e. fst e \<noteq> key_of c n) (entries c as) = entries c as"
    by (simp add: entries_def)
  from this [of ys] this [of zs]
  show "filter (\<lambda>e. fst e \<noteq> key_of c n) (entries c (ys @ n # zs)) = entries c (ys @ zs)"
    using other by (simp add: entries_def)
qed

lemma entries_cong:
  "(\<And>a. a \<in> set xs \<Longrightarrow> key_of c' a = key_of c a \<and> value_of c' a = value_of c a) \<Longrightarrow>
     entries c' xs = entries c xs"
  by (simp add: entries_def)

lemma Get_miss:
  assumes "cache_inv c xs" "items c k = None"
  shows "Get c k = Inr (False, None, c)" "map_of (entries c xs) k = None"
  using assms
  by (auto simp: Get_def cache_inv_def indexed_None entries_def map_of_eq_None_iff)

lemma Get_hit:
  assumes inv: "cache_inv c xs" and it: "items c k = Some n"
  shows "\<exists>c' xs'. Get c k = Inr (True, value_of c n, c') \<and> cache_inv c' xs' \<and>
           map_of (entries c xs) k = Some (value_of c n) \<and>
           entries c' xs' = (k, value_of c n) # filter (\<lambda>e. fst e \<noteq> k) (entries c xs) \<and>
           capacity c' = capacity c \<and> items c' = items c"
proof -
  from inv have wl: "well_linked c xs" and ix: "indexed c xs"
    and sz: "size_c c = int (length xs)" "size_c c \<le> max 0 (capacity c)"
    by (auto simp: cache_inv_def)
  from ix it have n: "n \<in> set xs" and kn: "key_of c n = k" by (auto simp: indexed_def)
  from n obtain ys zs where xs: "xs = ys @ n # zs" by (auto dest: split_list)
  from wl have d: "distinct xs" and al: "n < alloc c" using n by (auto simp: well_linked_def)
  from removeNode_linked [OF wl [unfolded xs]] obtain c1 where r: "removeNode c n = Inr c1"
    and w1: "well_linked c1 (ys @ zs)" and f1: "key_of c1 = key_of c" "value_of c1 = value_of c"
      "items c1 = items c" "size_c c1 = size_c c" "capacity c1 = capacity c" "alloc c1 = alloc c"
    by blast
  have nn: "n \<notin> set (ys @ zs)" using d xs by auto
  let ?c2 = "moveToFront c1 n"
  from moveToFront_linked [OF w1 nn] al f1
  have w2: "well_linked ?c2 (n # ys @ zs)" and f2: "key_of ?c2 = key_of c" "value_of ?c2 = value_of c"
      "items ?c2 = items c" "size_c ?c2 = size_c c" "capacity ?c2 = capacity c"
    by auto
  have g: "Get c k = Inr (True, value_of c n, ?c2)"
    using it r f2 by (simp add: Get_def Let_def value_of_def [symmetric])
  have "indexed ?c2 (n # ys @ zs)"
    using ix xs f2 by (auto simp: indexed_def)
  with w2 sz f2 xs have i2: "cache_inv ?c2 (n # ys @ zs)"
    by (simp add: cache_inv_def)
  have e2: "entries ?c2 (n # ys @ zs) = (k, value_of c n) # entries c (ys @ zs)"
    using f2 kn by (simp add: entries_def)
  from entries_split [OF ix [unfolded xs] d [unfolded xs]] kn xs
  have "map_of (entries c xs) k = Some (value_of c n)"
    and "filter (\<lambda>e. fst e \<noteq> k) (entries c xs) = entries c (ys @ zs)"
    by auto
  with g i2 e2 f2 show ?thesis by metis
qed

lemma Put_existing:
  assumes inv: "cache_inv c xs" and it: "items c k = Some n"
  shows "\<exists>c' xs'. Put c k v = Inr c' \<and> cache_inv c' xs' \<and>
           k \<in> fst ` set (entries c xs) \<and>
           entries c' xs' = (k, v) # filter (\<lambda>e. fst e \<noteq> k) (entries c xs) \<and>
           capacity c' = capacity c \<and> items c' = items c"
proof -
  from inv have wl: "well_linked c xs" and ix: "indexed c xs"
    and sz: "size_c c = int (length xs)" "size_c c \<le> max 0 (capacity c)"
    by (auto simp: cache_inv_def)
  from ix it have n: "n \<in> set xs" and kn: "key_of c n = k" by (auto simp: indexed_def)
  from n obtain ys zs where xs: "xs = ys @ n # zs" by (auto dest: split_list)
  from wl have d: "distinct xs" and al: "n < alloc c" using n by (auto simp: well_linked_def)
  let ?c0 = "set_value c n v"
  have w0: "well_linked ?c0 (ys @ n # zs)" using wl xs by (simp add: well_linked_def)
  from removeNode_linked [OF w0] obtain c1 where r: "removeNode ?c0 n = Inr c1"
    and w1: "well_linked c1 (ys @ zs)" and f1: "key_of c1 = key_of c"
      "value_of c1 = (value_of c)(n := v)"
      "items c1 = items c" "size_c c1 = size_c c" "capacity c1 = capacity c" "alloc c1 = alloc c"
    by auto
  have nn: "n \<notin> set (ys @ zs)" using d xs by auto
  let ?c2 = "moveToFront c1 n"
  from moveToFront_linked [OF w1 nn] al f1
  have w2: "well_linked ?c2 (n # ys @ zs)" and f2: "key_of ?c2 = key_of c"
      "value_of ?c2 = (value_of c)(n := v)"
      "items ?c2 = items c" "size_c ?c2 = size_c c" "capacity ?c2 = capacity c"
    by auto
  have g: "Put c k v = Inr ?c2"
    using it r by (simp add: Put_def)
  have "indexed ?c2 (n # ys @ zs)"
    using ix xs f2 by (auto simp: indexed_def)
  with w2 sz f2 xs have i2: "cache_inv ?c2 (n # ys @ zs)"
    by (simp add: cache_inv_def)
  have "entries ?c2 (ys @ zs) = entries c (ys @ zs)"
    using nn f2 by (intro entries_cong) auto
  then have e2: "entries ?c2 (n # ys @ zs) = (k, v) # entries c (ys @ zs)"
    using f2 kn by (simp add: entries_def)
  from entries_split [OF ix [unfolded xs] d [unfolded xs]] kn xs
  have "filter (\<lambda>e. fst e \<noteq> k) (entries c xs) = entries c (ys @ zs)"
    by auto
  moreover have "k \<in> fst ` set (entries c xs)"
    using n kn by (force simp: entries_def)
  ultimately show ?thesis using g i2 e2 f2 by metis
qed

lemma Put_new:
  assumes inv: "cache_inv c xs" and it: "items c k = None"
  shows "\<exists>c' xs'. Put c k v = Inr c' \<and> cache_inv c' xs' \<and>
           k \<notin> fst ` set (entries c xs) \<and>
           entries c' xs' =
             (if int (length (entries c xs)) + 1 > capacity c
              then butlast ((k, v) # entries c xs) else (k, v) # entries c xs) \<and>
           capacity c' = capacity c"
proof -
  from inv have wl: "well_linked c xs" and ix: "indexed c xs"
    and sz: "size_c c = int (length xs)" "size_c c \<le> max 0 (capacity c)"
    by (auto simp: cache_inv_def)
  let ?n = "alloc c"
  define c2 where "c2 = c\<lparr>heap := (heap c)(?n :=
               \<lparr>node_key = k, node_value = v, node_next = None, node_prev = None\<rparr>),
             alloc := Suc ?n, items := (items c)(k \<mapsto> ?n)\<rparr>"
  define c4 where "c4 = (moveToFront c2 ?n)\<lparr>size_c := size_c (moveToFront c2 ?n) + 1\<rparr>"
  have nn: "?n \<notin> set xs" using wl by (auto simp: well_linked_def)
  have nok: "\<forall>a \<in> set xs. key_of c a \<noteq> k" using ix it by (simp add: indexed_None)
  have v2: "next_of c2 = (next_of c)(?n := None)" "prev_of c2 = (prev_of c)(?n := None)"
    "key_of c2 = (key_of c)(?n := k)" "value_of c2 = (value_of c)(?n := v)"
    by (auto simp: c2_def next_of_def prev_of_def key_of_def value_of_def fun_eq_iff)
  have g2: "head c2 = head c" "tail c2 = tail c" "alloc c2 = Suc ?n" "size_c c2 = size_c c"
    "capacity c2 = capacity c" "items c2 = (items c)(k \<mapsto> ?n)"
    by (simp_all add: c2_def)
  have w2: "well_linked c2 xs"
    using wl nn unfolding well_linked_def v2 g2 by (auto simp: path_upd)
  have "?n < alloc c2" by (simp add: g2)
  from moveToFront_linked [OF w2 nn this]
  have w3: "well_linked (moveToFront c2 ?n) (?n # xs)"
    and f3: "key_of (moveToFront c2 ?n) = (key_of c)(?n := k)"
      "value_of (moveToFront c2 ?n) = (value_of c)(?n := v)"
      "items (moveToFront c2 ?n) = (items c)(k \<mapsto> ?n)"
      "size_c (moveToFront c2 ?n) = size_c c" "capacity (moveToFront c2 ?n) = capacity c"
    by (simp_all add: v2 g2)
  have w4: "well_linked c4 (?n # xs)" using w3 by (simp add: well_linked_def c4_def)
  have f4: "key_of c4 = (key_of c)(?n := k)" "value_of c4 = (value_of c)(?n := v)"
      "items c4 = (items c)(k \<mapsto> ?n)" "size_c c4 = size_c c + 1" "capacity c4 = capacity c"
    using f3 by (simp_all add: c4_def)
  have t4: "tail (moveToFront c2 ?n) = Some (last (?n # xs))"
    using well_linked_last [OF w3] by simp
  have i4: "indexed c4 (?n # xs)"
    unfolding indexed_def
  proof (intro allI)
    fix k' a
    have "(items c k' = Some a) = (a \<in> set xs \<and> key_of c a = k')"
      using ix by (simp add: indexed_def)
    then show "(items c4 k' = Some a) = (a \<in> set (?n # xs) \<and> key_of c4 a = k')"
      using nn nok by (auto simp: f4)
  qed
  have e4: "entries c4 (?n # xs) = (k, v) # entries c xs"
  proof -
    have "entries c4 xs = entries c xs"
      using nn by (intro entries_cong) (auto simp: f4)
    then show ?thesis by (simp add: entries_def f4)
  qed
  have nk: "k \<notin> fst ` set (entries c xs)"
    using nok by (auto simp: entries_def)
  have put: "Put c k v = (if size_c c4 > capacity c4 then evictLRU c4 else Inr c4)"
    using it t4 unfolding c4_def c2_def by (simp add: Put_def Let_def)
  have len: "int (length (entries c xs)) = size_c c" using sz by (simp add: entries_def)
  show ?thesis
  proof (cases "size_c c4 > capacity c4")
    case False
    then have "cache_inv c4 (?n # xs)"
      using w4 i4 sz f4 by (simp add: cache_inv_def)
    moreover have "Put c k v = Inr c4" using put False by simp
    moreover have "\<not> int (length (entries c xs)) + 1 > capacity c"
      using False len f4 by simp
    ultimately show ?thesis using e4 nk f4
      by (intro exI [of _ c4] exI [of _ "?n # xs"]) simp
  next
    case True
    from evictLRU_inv [OF w4 i4] obtain c' where ev: "evictLRU c4 = Inr c'"
      and w': "well_linked c' (butlast (?n # xs))" and i': "indexed c' (butlast (?n # xs))"
      and f': "size_c c' = size_c c4 - 1" "key_of c' = key_of c4" "value_of c' = value_of c4"
        "capacity c' = capacity c4"
      by blast
    have "cache_inv c' (butlast (?n # xs))"
      using w' i' f' f4 sz True by (simp add: cache_inv_def)
    moreover have "Put c k v = Inr c'" using put True ev by simp
    moreover have "int (length (entries c xs)) + 1 > capacity c"
      using True len f4 by simp
    moreover have "entries c' (butlast (?n # xs)) = butlast ((k, v) # entries c xs)"
    proof -
      have "entries c' (butlast (?n # xs)) = butlast (entries c4 (?n # xs))"
        unfolding entries_def f' by (rule map_butlast)
      then show ?thesis by (simp only: e4)
    qed
    ultimately show ?thesis using nk f' f4
      by (intro exI [of _ c'] exI [of _ "butlast (?n # xs)"]) simp
  qed
qed

lemma abstracts_New: "abstracts (NewLRUCache cap) []"
  by (simp add: abstracts_def cache_inv_def well_linked_def indexed_def entries_def NewLRUCache_def)

lemma Get_refines:
  assumes "abstracts c es"
  shows "\<exists>c'. Get c k = Inr (map_of es k \<noteq> None, (case map_of es k of None \<Rightarrow> None | Some v \<Rightarrow> v), c') \<and>
           abstracts c' (lru_touch k es) \<and> capacity c' = capacity c \<and> items c' = items c \<and>
           (map_of es k = None \<longrightarrow> c' = c)"
proof -
  from assms obtain xs where inv: "cache_inv c xs" and es: "es = entries c xs"
    by (auto simp: abstracts_def)
  show ?thesis
  proof (cases "items c k")
    case None
    from Get_miss [OF inv None] assms show ?thesis
      by (simp add: es lru_touch_def)
  next
    case (Some n)
    from Get_hit [OF inv Some] show ?thesis
      unfolding es abstracts_def lru_touch_def by fastforce
  qed
qed

lemma Put_refines:
  assumes "abstracts c es"
  shows "\<exists>c'. Put c k v = Inr c' \<and> abstracts c' (lru_put (capacity c) es k v) \<and>
           capacity c' = capacity c"
proof -
  from assms obtain xs where inv: "cache_inv c xs" and es: "es = entries c xs"
    by (auto simp: abstracts_def)
  show ?thesis
  proof (cases "items c k")
    case None
    from Put_new [OF inv None, of v] show ?thesis
      unfolding es abstracts_def lru_put_def by (auto simp del: butlast.simps)
  next
    case (Some n)
    from Put_existing [OF inv Some, of v] show ?thesis
      unfolding es abstracts_def lru_put_def by auto
  qed
qed

lemma apply_op_refines:
  assumes "abstracts c es"
  shows "\<exists>c'. apply_op c x = Inr c' \<and> abstracts c' (lru_apply (capacity c) es x) \<and>
           capacity c' = capacity c"
proof (cases x)
  case (OpGet k)
  with Get_refines [OF assms, of k] show ?thesis by auto
next
  case (OpPut k v)
  with Put_refines [OF assms, of k v] show ?thesis by auto
qed

lemma run_refines:
  "abstracts c es \<Longrightarrow>
     \<exists>c'. run c ops = Inr c' \<and> abstracts c' (foldl (lru_apply (capacity c)) es ops) \<and>
          capacity c' = capacity c"
proof (induction ops arbitrary: c es)
  case Nil
  then show ?case by simp
next
  case (Cons x ops)
  from apply_op_refines [OF Cons.prems, of x] obtain c1 where
    a: "apply_op c x = Inr c1" "abstracts c1 (lru_apply (capacity c) es x)" "capacity c1 = capacity c"
    by blast
  from Cons.IH [OF a(2)] a show ?case by auto
qed

lemma walk_path: "path (\<lambda>a. node_next (h a)) p xs None \<Longrightarrow> walk h p = Some xs"
proof (induction xs arbitrary: p)
  case Nil
  then show ?case by (simp add: walk.simps)
next
  case (Cons a xs)
  then have "p = Some a" "walk h (node_next (h a)) = Some xs" by auto
  then show ?case by (subst walk.simps) simp
qed

lemma abstracts_observe:
  assumes "abstracts c es"
  shows "Display c = Some (map fst es)" "Size c = int (length es)" "Size c \<le> max 0 (Capacity c)"
    "dom (items c) = fst ` set es" "distinct (map fst es)"
proof -
  from assms obtain xs where inv: "cache_inv c xs" and es: "es = entries c xs"
    by (auto simp: abstracts_def)
  from inv have wl: "well_linked c xs" and ix: "indexed c xs"
    and sz: "size_c c = int (length xs)" "size_c c \<le> max 0 (capacity c)"
    by (auto simp: cache_inv_def)
  have "path (\<lambda>a. node_next (heap c a)) (head c) xs None"
    using wl by (simp add: well_linked_def next_of_def [abs_def])
  from walk_path [OF this] show "Display c = Some (map fst es)"
    by (simp add: Display_def es entries_def key_of_def comp_def)
  show "Size c = int (length es)" using sz by (simp add: Size_def es entries_def)
  show "Size c \<le> max 0 (Capacity c)" using sz by (simp add: Size_def Capacity_def)
  show "dom (items c) = fst ` set es"
    using ix by (force simp: indexed_def es entries_def dom_def)
  have "inj_on (key_of c) (set xs)"
    using indexed_inj [OF ix] by (auto simp: inj_on_def)
  moreover have "distinct xs" using wl by (simp add: well_linked_def)
  ultimately show "distinct (map fst es)"
    by (simp add: es entries_def comp_def distinct_map)
qed

section \<open>Properties of the cache\<close>

lemma reachable_abstracts:
  "\<exists>c. run (NewLRUCache cap) ops = Inr c \<and>
        abstracts c (foldl (lru_apply cap) [] ops) \<and> capacity c = cap"
  using run_refines [OF abstracts_New, of cap ops] by (simp add: NewLRUCache_def)

lemma length_lru_apply: "length (lru_apply cap es x) \<le> Suc (length es)"
proof (cases x)
  case (OpGet k)
  have "length (filter (\<lambda>e. fst e \<noteq> k) es) \<le> length es" by (rule length_filter_le)
  with OpGet show ?thesis by (simp add: lru_touch_def split: option.splits)
next
  case (OpPut k v)
  have "length (filter (\<lambda>e. fst e \<noteq> k) es) \<le> length es" by (rule length_filter_le)
  with OpPut show ?thesis by (simp add: lru_put_def)
qed

lemma length_lru_run: "length (foldl (lru_apply cap) es ops) \<le> length es + length ops"
proof (induction ops arbitrary: es)
  case Nil
  show ?case by simp
next
  case (Cons x ops)
  from Cons.IH [of "lru_apply cap es x"] length_lru_apply [of cap es x]
  show ?case by simp
qed

text \<open>
  Claim C1 as stated fails for a negative capacity: the one Put on a fresh cache of
  capacity \<open>-1\<close> completes, evicts its own entry and leaves \<open>Size() = 0\<close>, which is not
  \<open>\<le> Capacity() = -1\<close>.
\<close>

theorem Put_negative_capacity_size_exceeds:
  "\<exists>c. Put (NewLRUCache (- 1)) ''k'' None = Inr c \<and> Size c = 0 \<and> Capacity c = - 1 \<and>
        \<not> Size c \<le> Capacity c"
  by (simp add: Put_def NewLRUCache_def Let_def moveToFront_def evictLRU_def removeNode_def
      set_next_def set_prev_def Size_def Capacity_def)

text \<open>
  Claim C1, amended: for every capacity fixed at construction (positive, zero or
  negative) and every sequence of Put operations on a fresh cache, every Put completes
  without a panic and afterwards \<open>0 \<le> Size() \<le> max 0 Capacity()\<close>.  So
  \<open>Size() \<le> Capacity()\<close> for a capacity \<open>\<ge> 0\<close>, and \<open>Size() = 0\<close> for a capacity \<open>\<le> 0\<close>:
  nothing just inserted stays.  The statement holds for every list of Puts, hence after
  each Put of a sequence.  \<open>Size()\<close> is also at most the number of Puts made, so the
  64-bit counter of the source does not wrap in any run of fewer than \<open>2^63\<close> Puts.
\<close>

theorem Put_sequence_size_bounded:
  "\<exists>c. run (NewLRUCache cap) (map (\<lambda>(k, v). OpPut k v) kvs) = Inr c \<and>
        Capacity c = cap \<and> 0 \<le> Size c \<and> Size c \<le> max 0 (Capacity c) \<and>
        Size c \<le> int (length kvs)"
proof -
  let ?ops = "map (\<lambda>(k, v). OpPut k v) kvs"
  from reachable_abstracts [of cap ?ops]
  obtain c where r: "run (NewLRUCache cap) ?ops = Inr c"
    and a: "abstracts c (foldl (lru_apply cap) [] ?ops)" and cp: "capacity c = cap"
    by blast
  from length_lru_run [of cap "[]" ?ops] abstracts_observe(2) [OF a]
  have "Size c \<le> int (length kvs)" by simp
  with abstracts_observe(2,3) [OF a] cp r show ?thesis
    by (simp add: Capacity_def)
qed

theorem Put_sequence_size_bounded_witness:
  "\<exists>c. run (NewLRUCache 1) [OpPut ''a'' None, OpPut ''b'' None] = Inr c \<and>
        Capacity c = 1 \<and> 0 \<le> Size c \<and> Size c \<le> max 0 (Capacity c) \<and> Size c \<le> 2"
  using Put_sequence_size_bounded [of 1 "[(''a'', None), (''b'', None)]"] by simp

text \<open>
  Claim C6: after every sequence of Get and Put operations on a freshly constructed
  cache (of any capacity), the run completes without a panic, the walk of \<open>Display\<close>
  from \<open>head\<close> along \<open>next\<close> ends, and the keys it meets are exactly the keys of the
  map; no key is met twice and their number is \<open>Size()\<close>.
\<close>

theorem list_keys_are_map_keys:
  "\<exists>c ks. run (NewLRUCache cap) ops = Inr c \<and> Display c = Some ks \<and>
          set ks = dom (items c) \<and> distinct ks \<and> int (length ks) = Size c"
proof -
  from reachable_abstracts [of cap ops]
  obtain c es where r: "run (NewLRUCache cap) ops = Inr c" and a: "abstracts c es"
    by blast
  from abstracts_observe [OF a] r show ?thesis
    by simp
qed

theorem list_keys_are_map_keys_witness:
  "\<exists>c ks. run (NewLRUCache 2) [OpPut ''a'' None, OpGet ''a'', OpPut ''b'' None] = Inr c \<and>
          Display c = Some ks \<and> set ks = dom (items c) \<and> distinct ks \<and>
          int (length ks) = Size c"
  using list_keys_are_map_keys [of 2 "[OpPut ''a'' None, OpGet ''a'', OpPut ''b'' None]"] by simp

subsection \<open>Recency order and eviction\<close>

lemma keys_lru_put:
  "map fst (lru_put cap es k v) =
     (if k \<in> set (map fst es) then k # filter (\<lambda>x. x \<noteq> k) (map fst es)
      else if int (length (map fst es)) + 1 > cap then butlast (k # map fst es)
      else k # map fst es)"
  by (simp add: lru_put_def filter_map comp_def map_butlast del: butlast.simps)

lemma keys_lru_touch:
  "k \<in> set (map fst es) \<Longrightarrow> map fst (lru_touch k es) = k # filter (\<lambda>x. x \<noteq> k) (map fst es)"
  by (auto simp: lru_touch_def filter_map comp_def map_of_eq_None_iff split: option.splits)

lemma lru_puts_fresh:
  "distinct (map fst kvs) \<Longrightarrow> fst ` set kvs \<inter> fst ` set es = {} \<Longrightarrow>
   int (length es + length kvs) \<le> cap \<Longrightarrow>
     foldl (lru_apply cap) es (map (\<lambda>(k, v). OpPut k v) kvs) = rev kvs @ es"
proof (induction kvs arbitrary: es)
  case Nil
  then show ?case by simp
next
  case (Cons kv kvs)
  obtain k v where kv: "kv = (k, v)" by (cases kv)
  from Cons.prems have a: "lru_put cap es k v = (k, v) # es"
    by (auto simp: lru_put_def kv)
  from Cons.prems have "fst ` set kvs \<inter> fst ` set ((k, v) # es) = {}"
    by (auto simp: kv)
  from Cons.IH [OF _ this] Cons.prems show ?case
    by (simp add: kv a)
qed

lemma lru_puts_overflow:
  assumes d: "distinct (map fst kvs)" and l: "length kvs = Suc N"
  shows "foldl (lru_apply (int N)) [] (map (\<lambda>(k, v). OpPut k v) kvs) = rev (tl kvs)"
proof -
  from l obtain kvs' k v where s: "kvs = kvs' @ [(k, v)]"
    by (cases kvs rule: rev_cases) auto
  with d l have "foldl (lru_apply (int N)) [] (map (\<lambda>(k, v). OpPut k v) kvs') = rev kvs' @ []"
    by (intro lru_puts_fresh) auto
  then have "foldl (lru_apply (int N)) [] (map (\<lambda>(k, v). OpPut k v) kvs) =
      lru_put (int N) (rev kvs') k v"
    by (simp add: s)
  also have "\<dots> = butlast ((k, v) # rev kvs')"
    using d l s by (auto simp: lru_put_def)
  also have "\<dots> = rev (tl kvs)"
    by (cases kvs') (simp_all add: s butlast_append)
  finally show ?thesis .
qed

lemma map_of_filter_other:
  "map_of (filter (\<lambda>e. fst e \<noteq> k) es) k' = (if k' = k then None else map_of es k')"
  by (induction es) auto

lemma map_of_lru_touch: "map_of (lru_touch k es) = map_of es"
  by (auto simp: lru_touch_def map_of_filter_other fun_eq_iff split: option.splits)

lemma Gets_preserve:
  "abstracts c es \<Longrightarrow>
     \<exists>c' es'. run c (map OpGet gs) = Inr c' \<and> abstracts c' es' \<and> map_of es' = map_of es"
proof (induction gs arbitrary: c es)
  case Nil
  then show ?case by auto
next
  case (Cons g gs)
  from Get_refines [OF Cons.prems, of g] obtain r v c1 where
    g: "Get c g = Inr (r, v, c1)" and a1: "abstracts c1 (lru_touch g es)"
    by blast
  from Cons.IH [OF a1] g show ?case
    by (auto simp: map_of_lru_touch)
qed

text \<open>
  Claim C2.  On every cache reached from a fresh one, the order in which \<open>Display\<close>
  lists the keys is the recency order: a Get hit and a Put of a present key move that
  key to the front and keep the rest in order, a Get miss changes nothing, and a Put of
  a new key puts it in front and, when that exceeds the capacity, removes exactly the
  last key of the order (the least recently used).  With capacity \<open>N\<close>, after Puts of
  \<open>N + 1\<close> distinct keys into a fresh cache, and after any further lookups, a Get of the
  first key misses and a Get of each later key hits with the value put.  With capacity 2 and distinct keys \<open>A\<close>, \<open>B\<close>,
  \<open>C\<close>: after Put \<open>A\<close>, Put \<open>B\<close>, Get \<open>A\<close>, Put \<open>C\<close>, the key \<open>B\<close> misses while \<open>A\<close> and \<open>C\<close>
  hit.
\<close>

theorem eviction_removes_least_recently_used:
  "(\<exists>c ks. run (NewLRUCache cap) ops = Inr c \<and> Display c = Some ks \<and>
      (\<forall>k. k \<in> set ks \<longrightarrow>
         (\<exists>v c'. Get c k = Inr (True, v, c') \<and>
            Display c' = Some (k # filter (\<lambda>x. x \<noteq> k) ks))) \<and>
      (\<forall>k. k \<notin> set ks \<longrightarrow> Get c k = Inr (False, None, c)) \<and>
      (\<forall>k v. \<exists>c'. Put c k v = Inr c' \<and>
         Display c' =
           Some (if k \<in> set ks then k # filter (\<lambda>x. x \<noteq> k) ks
                 else if int (length ks) + 1 > cap then butlast (k # ks)
                 else k # ks))) \<and>
   (distinct (map fst kvs) \<and> length kvs = Suc N \<longrightarrow>
      (\<exists>c. run (NewLRUCache (int N)) (map (\<lambda>(k, v). OpPut k v) kvs) = Inr c \<and>
         (\<forall>gs. \<exists>c'. run c (map OpGet gs) = Inr c' \<and>
            Get c' (fst (hd kvs)) = Inr (False, None, c') \<and>
            (\<forall>(k, v) \<in> set (tl kvs). \<exists>c''. Get c' k = Inr (True, v, c''))))) \<and>
   (A \<noteq> B \<and> C \<noteq> A \<and> C \<noteq> B \<longrightarrow>
      (\<exists>c ca cc. run (NewLRUCache 2) [OpPut A va, OpPut B vb, OpGet A, OpPut C vc] = Inr c \<and>
         Get c B = Inr (False, None, c) \<and> Get c A = Inr (True, va, ca) \<and>
         Get c C = Inr (True, vc, cc)))"
proof (intro conjI impI)
  from reachable_abstracts [of cap ops]
  obtain c es where r: "run (NewLRUCache cap) ops = Inr c" and a: "abstracts c es"
    and cp: "capacity c = cap"
    by blast
  let ?ks = "map fst es"
  note ob = abstracts_observe [OF a]
  have hit: "\<exists>v c'. Get c k = Inr (True, v, c') \<and>
      Display c' = Some (k # filter (\<lambda>x. x \<noteq> k) ?ks)" if "k \<in> set ?ks" for k
  proof -
    from Get_refines [OF a, of k] obtain c' where
      g: "Get c k = Inr (map_of es k \<noteq> None, (case map_of es k of None \<Rightarrow> None | Some v \<Rightarrow> v), c')"
      and a': "abstracts c' (lru_touch k es)"
      by blast
    from that have "map_of es k \<noteq> None" by (simp add: map_of_eq_None_iff)
    with g abstracts_observe(1) [OF a'] keys_lru_touch [OF that] show ?thesis by simp
  qed
  have miss: "Get c k = Inr (False, None, c)" if "k \<notin> set ?ks" for k
  proof -
    from that have "map_of es k = None" by (simp add: map_of_eq_None_iff)
    with Get_refines [OF a, of k] show ?thesis by auto
  qed
  have put: "\<exists>c'. Put c k v = Inr c' \<and>
      Display c' =
        Some (if k \<in> set ?ks then k # filter (\<lambda>x. x \<noteq> k) ?ks
              else if int (length ?ks) + 1 > cap then butlast (k # ?ks)
              else k # ?ks)" for k v
  proof -
    from Put_refines [OF a, of k v] cp obtain c' where
      p: "Put c k v = Inr c'" and a': "abstracts c' (lru_put cap es k v)"
      by auto
    from abstracts_observe(1) [OF a'] p show ?thesis
      by (simp only: keys_lru_put) simp
  qed
  from r ob(1) hit miss put
  show "\<exists>c ks. run (NewLRUCache cap) ops = Inr c \<and> Display c = Some ks \<and>
      (\<forall>k. k \<in> set ks \<longrightarrow>
         (\<exists>v c'. Get c k = Inr (True, v, c') \<and>
            Display c' = Some (k # filter (\<lambda>x. x \<noteq> k) ks))) \<and>
      (\<forall>k. k \<notin> set ks \<longrightarrow> Get c k = Inr (False, None, c)) \<and>
      (\<forall>k v. \<exists>c'. Put c k v = Inr c' \<and>
         Display c' =
           Some (if k \<in> set ks then k # filter (\<lambda>x. x \<noteq> k) ks
                 else if int (length ks) + 1 > cap then butlast (k # ks)
                 else k # ks))"
    by blast
next
  assume h: "distinct (map fst kvs) \<and> length kvs = Suc N"
  let ?ops = "map (\<lambda>(k, v). OpPut k v) kvs"
  from reachable_abstracts [of "int N" ?ops] lru_puts_overflow [of kvs N] h
  obtain c where r: "run (NewLRUCache (int N)) ?ops = Inr c" and a: "abstracts c (rev (tl kvs))"
    by auto
  from h obtain kv rest where s: "kvs = kv # rest" by (cases kvs) auto
  with h have dr: "distinct (map fst rest)" and nk: "fst kv \<notin> fst ` set rest" by auto
  have n1: "map_of (rev (tl kvs)) (fst (hd kvs)) = None"
    using nk by (simp add: s map_of_eq_None_iff)
  have n2: "map_of (rev (tl kvs)) k = Some v" if "(k, v) \<in> set (tl kvs)" for k v
    using that dr by (intro map_of_is_SomeI) (simp_all add: s rev_map [symmetric])
  have "\<exists>c'. run c (map OpGet gs) = Inr c' \<and>
      Get c' (fst (hd kvs)) = Inr (False, None, c') \<and>
      (\<forall>(k, v) \<in> set (tl kvs). \<exists>c''. Get c' k = Inr (True, v, c''))" for gs
  proof -
    from Gets_preserve [OF a, of gs] obtain c' es' where
      g: "run c (map OpGet gs) = Inr c'" and a': "abstracts c' es'"
      and m: "map_of es' = map_of (rev (tl kvs))"
      by blast
    from Get_refines [OF a', of "fst (hd kvs)"] n1
    have "Get c' (fst (hd kvs)) = Inr (False, None, c')" by (auto simp: m)
    moreover have "\<exists>c''. Get c' k = Inr (True, v, c'')" if "(k, v) \<in> set (tl kvs)" for k v
      using Get_refines [OF a', of k] n2 [OF that] by (auto simp: m)
    ultimately show ?thesis using g by blast
  qed
  with r show "\<exists>c. run (NewLRUCache (int N)) ?ops = Inr c \<and>
      (\<forall>gs. \<exists>c'. run c (map OpGet gs) = Inr c' \<and>
         Get c' (fst (hd kvs)) = Inr (False, None, c') \<and>
         (\<forall>(k, v) \<in> set (tl kvs). \<exists>c''. Get c' k = Inr (True, v, c'')))"
    by blast
next
  assume h: "A \<noteq> B \<and> C \<noteq> A \<and> C \<noteq> B"
  let ?ops = "[OpPut A va, OpPut B vb, OpGet A, OpPut C vc]"
  from h have "foldl (lru_apply 2) [] ?ops = [(C, vc), (A, va)]"
    by (auto simp: lru_put_def lru_touch_def)
  with reachable_abstracts [of 2 ?ops]
  obtain c where r: "run (NewLRUCache 2) ?ops = Inr c" and a: "abstracts c [(C, vc), (A, va)]"
    by auto
  from Get_refines [OF a, of B] Get_refines [OF a, of A] Get_refines [OF a, of C] h r
  show "\<exists>c ca cc. run (NewLRUCache 2) ?ops = Inr c \<and>
      Get c B = Inr (False, None, c) \<and> Get c A = Inr (True, va, ca) \<and>
      Get c C = Inr (True, vc, cc)"
    by auto
qed

lemma run_display:
  "\<exists>c. run (NewLRUCache cap) ops = Inr c \<and>
        Display c = Some (map fst (foldl (lru_apply cap) [] ops))"
proof -
  from reachable_abstracts [of cap ops]
  obtain c where "run (NewLRUCache cap) ops = Inr c"
    and "abstracts c (foldl (lru_apply cap) [] ops)"
    by blast
  with abstracts_observe(1) show ?thesis by blast
qed

theorem eviction_removes_least_recently_used_witness:
  "(\<exists>c. run (NewLRUCache 2) [OpPut ''a'' None, OpPut ''b'' None] = Inr c \<and>
      Display c = Some [''b'', ''a''] \<and>
      (\<exists>v c'. Get c ''a'' = Inr (True, v, c') \<and> Display c' = Some [''a'', ''b'']) \<and>
      Get c ''z'' = Inr (False, None, c) \<and>
      (\<exists>c'. Put c ''a'' None = Inr c' \<and> Display c' = Some [''a'', ''b'']) \<and>
      (\<exists>c'. Put c ''z'' None = Inr c' \<and> Display c' = Some [''z'', ''b''])) \<and>
   (\<exists>c. run (NewLRUCache 2)
           [OpPut ''k1'' None, OpPut ''k2'' (Some \<lparr>Status = ''s'', Header = [], Body = []\<rparr>),
            OpPut ''k3'' None] = Inr c \<and>
      Get c ''k1'' = Inr (False, None, c) \<and>
      (\<exists>c'. Get c ''k2'' = Inr (True, Some \<lparr>Status = ''s'', Header = [], Body = []\<rparr>, c')) \<and>
      (\<exists>c'. Get c ''k3'' = Inr (True, None, c'))) \<and>
   (\<exists>c ca cc. run (NewLRUCache 2)
           [OpPut ''A'' None, OpPut ''B'' None, OpGet ''A'', OpPut ''C'' None] = Inr c \<and>
      Get c ''B'' = Inr (False, None, c) \<and> Get c ''A'' = Inr (True, None, ca) \<and>
      Get c ''C'' = Inr (True, None, cc))"
proof -
  let ?ops = "[OpPut ''a'' None, OpPut ''b'' None]"
  let ?kvs = "[(''k1'', None), (''k2'', Some \<lparr>Status = ''s'', Header = [], Body = []\<rparr>),
               (''k3'', None)]"
  note t = eviction_removes_least_recently_used
    [of 2 ?ops ?kvs 2 "''A''" "''B''" "''C''" None None None]
  from run_display [of 2 ?ops]
  obtain c0 where r0: "run (NewLRUCache 2) ?ops = Inr c0" and d0: "Display c0 = Some [''b'', ''a'']"
    by (auto simp: lru_put_def)
  from t obtain c ks where r: "run (NewLRUCache 2) ?ops = Inr c" and d: "Display c = Some ks"
    and hit: "\<forall>k. k \<in> set ks \<longrightarrow>
         (\<exists>v c'. Get c k = Inr (True, v, c') \<and>
            Display c' = Some (k # filter (\<lambda>x. x \<noteq> k) ks))"
    and miss: "\<forall>k. k \<notin> set ks \<longrightarrow> Get c k = Inr (False, None, c)"
    and put: "\<forall>k v. \<exists>c'. Put c k v = Inr c' \<and>
         Display c' =
           Some (if k \<in> set ks then k # filter (\<lambda>x. x \<noteq> k) ks
                 else if int (length ks) + 1 > 2 then butlast (k # ks)
                 else k # ks)"
    by blast
  from r r0 d d0 have c: "c = c0" and ks: "ks = [''b'', ''a'']" by simp_all
  have p1: "\<exists>v c'. Get c0 ''a'' = Inr (True, v, c') \<and> Display c' = Some [''a'', ''b'']"
    using hit [rule_format, of "''a''"] by (simp add: c ks)
  have p2: "Get c0 ''z'' = Inr (False, None, c0)"
    using miss [rule_format, of "''z''"] by (simp add: c ks)
  have p3: "\<exists>c'. Put c0 ''a'' None = Inr c' \<and> Display c' = Some [''a'', ''b'']"
    using put [rule_format, of "''a''" None] by (simp add: c ks)
  have p4: "\<exists>c'. Put c0 ''z'' None = Inr c' \<and> Display c' = Some [''z'', ''b'']"
    using put [rule_format, of "''z''" None] by (simp add: c ks)
  have first: "\<exists>c. run (NewLRUCache 2) ?ops = Inr c \<and>
      Display c = Some [''b'', ''a''] \<and>
      (\<exists>v c'. Get c ''a'' = Inr (True, v, c') \<and> Display c' = Some [''a'', ''b'']) \<and>
      Get c ''z'' = Inr (False, None, c) \<and>
      (\<exists>c'. Put c ''a'' None = Inr c' \<and> Display c' = Some [''a'', ''b'']) \<and>
      (\<exists>c'. Put c ''z'' None = Inr c' \<and> Display c' = Some [''z'', ''b''])"
    using r0 d0 p1 p2 p3 p4 by blast
  from t obtain c2 where r2: "run (NewLRUCache 2)
           [OpPut ''k1'' None, OpPut ''k2'' (Some \<lparr>Status = ''s'', Header = [], Body = []\<rparr>),
            OpPut ''k3'' None] = Inr c2"
    and g2: "\<forall>gs. \<exists>c'. run c2 (map OpGet gs) = Inr c' \<and>
            Get c' (fst (hd ?kvs)) = Inr (False, None, c') \<and>
            (\<forall>(k, v) \<in> set (tl ?kvs). \<exists>c''. Get c' k = Inr (True, v, c''))"
    by auto
  from g2 [rule_format, of "[]"] r2
  have second: "\<exists>c. run (NewLRUCache 2)
           [OpPut ''k1'' None, OpPut ''k2'' (Some \<lparr>Status = ''s'', Header = [], Body = []\<rparr>),
            OpPut ''k3'' None] = Inr c \<and>
      Get c ''k1'' = Inr (False, None, c) \<and>
      (\<exists>c'. Get c ''k2'' = Inr (True, Some \<lparr>Status = ''s'', Header = [], Body = []\<rparr>, c')) \<and>
      (\<exists>c'. Get c ''k3'' = Inr (True, None, c'))"
    by auto
  from t have third: "\<exists>c ca cc. run (NewLRUCache 2)
           [OpPut ''A'' None, OpPut ''B'' None, OpGet ''A'', OpPut ''C'' None] = Inr c \<and>
      Get c ''B'' = Inr (False, None, c) \<and> Get c ''A'' = Inr (True, None, ca) \<and>
      Get c ''C'' = Inr (True, None, cc)"
    by simp
  from first second third show ?thesis by (intro conjI)
qed

subsection \<open>Update in place\<close>

text \<open>
  Claim C7 as stated fails on a cache of capacity 0 (or less): both Puts evict their
  own entry, so the Get that follows misses instead of returning the second value.
\<close>

theorem Put_Put_Get_capacity_zero_misses:
  "\<exists>c. run (NewLRUCache 0)
          [OpPut ''K'' (Some \<lparr>Status = ''1'', Header = [], Body = []\<rparr>),
           OpPut ''K'' (Some \<lparr>Status = ''2'', Header = [], Body = []\<rparr>)] = Inr c \<and>
        Get c ''K'' = Inr (False, None, c)"
proof -
  let ?ops = "[OpPut ''K'' (Some \<lparr>Status = ''1'', Header = [], Body = []\<rparr>),
               OpPut ''K'' (Some \<lparr>Status = ''2'', Header = [], Body = []\<rparr>)]"
  have "foldl (lru_apply 0) [] ?ops = []"
    by (simp add: lru_put_def)
  with reachable_abstracts [of 0 ?ops]
  obtain c where r: "run (NewLRUCache 0) ?ops = Inr c" and a: "abstracts c []"
    by auto
  from Get_refines [OF a, of "''K''"] r show ?thesis by auto
qed

text \<open>
  Claim C7, amended: in any state reached from a fresh cache, for every key \<open>K\<close> and
  values \<open>V1\<close>, \<open>V2\<close>, the two Puts \<open>Put(K, V1)\<close> and \<open>Put(K, V2)\<close> complete and the
  second leaves \<open>Size()\<close> and the order of the keys unchanged.  On a cache of capacity at
  least 1 the \<open>Get(K)\<close> that follows hits and returns \<open>V2\<close>, and \<open>K\<close> is the first key of
  the list (most recently used) and occurs nowhere else in it: the value is replaced in
  place, no duplicate is inserted.  On a cache of capacity 0 or less no Put sticks, and
  the \<open>Get(K)\<close> that follows misses and leaves the cache as it is.
\<close>

theorem Put_twice_updates_in_place:
  "\<exists>c c1 c2. run (NewLRUCache cap) ops = Inr c \<and> Put c K V1 = Inr c1 \<and>
      Put c1 K V2 = Inr c2 \<and> Size c2 = Size c1 \<and> Display c2 = Display c1 \<and>
      (1 \<le> cap \<longrightarrow>
         (\<exists>c3 ks. Get c2 K = Inr (True, V2, c3) \<and> Display c2 = Some (K # ks) \<and>
            K \<notin> set ks)) \<and>
      (cap \<le> 0 \<longrightarrow> Get c2 K = Inr (False, None, c2) \<and> Display c2 = Some [])"
proof -
  from reachable_abstracts [of cap ops]
  obtain c es where r: "run (NewLRUCache cap) ops = Inr c" and a: "abstracts c es"
    and cp: "capacity c = cap"
    by blast
  from Put_refines [OF a, of K V1] cp obtain c1 where
    p1: "Put c K V1 = Inr c1" and a1: "abstracts c1 (lru_put cap es K V1)" and cp1: "capacity c1 = cap"
    by auto
  from Put_refines [OF a1, of K V2] cp1 obtain c2 where
    p2: "Put c1 K V2 = Inr c2" and a2: "abstracts c2 (lru_put cap (lru_put cap es K V1) K V2)"
    by auto
  note o1 = abstracts_observe [OF a1] and o2 = abstracts_observe [OF a2]
  show ?thesis
  proof (cases "1 \<le> cap")
    case True
    then have "\<exists>rest. lru_put cap es K V1 = (K, V1) # rest"
      by (cases es) (auto simp: lru_put_def)
    then obtain rest where e1: "lru_put cap es K V1 = (K, V1) # rest" ..
    from o1(5) have nk: "K \<notin> fst ` set rest"
      by (simp add: e1)
    then have "filter (\<lambda>e. fst e \<noteq> K) rest = rest"
      by (auto simp: filter_id_conv)
    then have "lru_put cap ((K, V1) # rest) K V2 = (K, V2) # rest"
      by (simp add: lru_put_def)
    then have e2: "lru_put cap (lru_put cap es K V1) K V2 = (K, V2) # rest"
      by (simp only: e1)
    from Get_refines [OF a2 [unfolded e2], of K] obtain c3 where
      g: "Get c2 K = Inr (True, V2, c3)"
      by auto
    from o1(1,2) have d1: "Display c1 = Some (K # map fst rest)" "Size c1 = 1 + int (length rest)"
      by (simp_all add: e1)
    from o2(1,2) [unfolded e2]
    have d2: "Display c2 = Some (K # map fst rest)" "Size c2 = 1 + int (length rest)"
      by simp_all
    from nk have "K \<notin> set (map fst rest)" by simp
    with r p1 p2 g d1 d2 True show ?thesis
      by (intro exI [of _ c] exI [of _ c1] exI [of _ c2]) auto
  next
    case False
    from abstracts_observe(2,3) [OF a] cp False have "es = []"
      by (simp add: Capacity_def)
    with False have z1: "lru_put cap es K V1 = []"
      by (simp add: lru_put_def)
    from False have "lru_put cap [] K V2 = []"
      by (simp add: lru_put_def)
    then have z2: "lru_put cap (lru_put cap es K V1) K V2 = []"
      by (simp only: z1)
    from o1(1,2) [unfolded z1] o2(1,2) [unfolded z2]
    have "Display c2 = Display c1" "Size c2 = Size c1" "Display c2 = Some []" by simp_all
    moreover from Get_refines [OF a2 [unfolded z2], of K]
    have "Get c2 K = Inr (False, None, c2)" by auto
    ultimately show ?thesis using r p1 p2 False
      by (intro exI [of _ c] exI [of _ c1] exI [of _ c2]) simp
  qed
qed

theorem Put_twice_updates_in_place_witness:
  "(1::int) \<le> 1 \<and>
   (\<exists>c c1 c2 c3 ks. run (NewLRUCache 1) [OpPut ''a'' None] = Inr c \<and>
      Put c ''K'' (Some \<lparr>Status = ''1'', Header = [], Body = []\<rparr>) = Inr c1 \<and>
      Put c1 ''K'' (Some \<lparr>Status = ''2'', Header = [], Body = []\<rparr>) = Inr c2 \<and>
      Get c2 ''K'' = Inr (True, Some \<lparr>Status = ''2'', Header = [], Body = []\<rparr>, c3) \<and>
      Size c2 = Size c1 \<and> Display c2 = Display c1 \<and> Display c2 = Some (''K'' # ks) \<and>
      ''K'' \<notin> set ks) \<and>
   (0::int) \<le> 0 \<and>
   (\<exists>c c1 c2. run (NewLRUCache 0) [OpPut ''a'' None] = Inr c \<and>
      Put c ''K'' (Some \<lparr>Status = ''1'', Header = [], Body = []\<rparr>) = Inr c1 \<and>
      Put c1 ''K'' (Some \<lparr>Status = ''2'', Header = [], Body = []\<rparr>) = Inr c2 \<and>
      Size c2 = Size c1 \<and> Get c2 ''K'' = Inr (False, None, c2) \<and> Display c2 = Some [])"
proof -
  have h: "(1::int) \<le> 1" and z: "(0::int) \<le> 0" by simp_all
  from Put_twice_updates_in_place [of 1 "[OpPut ''a'' None]" "''K''"
      "Some \<lparr>Status = ''1'', Header = [], Body = []\<rparr>"
      "Some \<lparr>Status = ''2'', Header = [], Body = []\<rparr>"] h
  have one: "\<exists>c c1 c2 c3 ks. run (NewLRUCache 1) [OpPut ''a'' None] = Inr c \<and>
      Put c ''K'' (Some \<lparr>Status = ''1'', Header = [], Body = []\<rparr>) = Inr c1 \<and>
      Put c1 ''K'' (Some \<lparr>Status = ''2'', Header = [], Body = []\<rparr>) = Inr c2 \<and>
      Get c2 ''K'' = Inr (True, Some \<lparr>Status = ''2'', Header = [], Body = []\<rparr>, c3) \<and>
      Size c2 = Size c1 \<and> Display c2 = Display c1 \<and> Display c2 = Some (''K'' # ks) \<and>
      ''K'' \<notin> set ks"
    by auto
  from Put_twice_updates_in_place [of 0 "[OpPut ''a'' None]" "''K''"
      "Some \<lparr>Status = ''1'', Header = [], Body = []\<rparr>"
      "Some \<lparr>Status = ''2'', Header = [], Body = []\<rparr>"] z
  have zero: "\<exists>c c1 c2. run (NewLRUCache 0) [OpPut ''a'' None] = Inr c \<and>
      Put c ''K'' (Some \<lparr>Status = ''1'', Header = [], Body = []\<rparr>) = Inr c1 \<and>
      Put c1 ''K'' (Some \<lparr>Status = ''2'', Header = [], Body = []\<rparr>) = Inr c2 \<and>
      Size c2 = Size c1 \<and> Get c2 ''K'' = Inr (False, None, c2) \<and> Display c2 = Some []"
    by auto
  from h z one zero show ?thesis by (intro conjI)
qed

section \<open>Properties of the connection handler\<close>

lemma removeNode_items: "removeNode c n = Inr c' \<Longrightarrow> items c' = items c"
  by (auto simp: removeNode_def Let_def split: if_splits option.splits)

lemma moveToFront_items: "items (moveToFront c n) = items c"
  by (simp add: moveToFront_def split: option.splits)

lemma Get_items: "Get c k = Inr (found, item, c') \<Longrightarrow> items c' = items c"
  by (auto simp: Get_def Let_def moveToFront_items split: option.splits sum.splits
      dest: removeNode_items)

lemma getCachedResponse_items: "getCachedResponse c k = Inr (r, c') \<Longrightarrow> items c' = items c"
  by (auto simp: getCachedResponse_def split: sum.splits dest: Get_items)

lemma badGatewayResponse_bytes:
  "badGatewayResponse =
     ''HTTP/1.1 502 Bad Gateway'' @ [CHR 0x0D, CHR 0x0A] @
     ''Content-Type: text/plain'' @ [CHR 0x0D, CHR 0x0A] @
     ''Content-Length: 57'' @ [CHR 0x0D, CHR 0x0A] @
     ''Connection: close'' @ [CHR 0x0D, CHR 0x0A] @
     [CHR 0x0D, CHR 0x0A] @
     ''The target server is unavailable. Please try again later.''"
  by (simp add: badGatewayResponse_def badGatewayBody_def fmt_d_def CRLF_def)

subsection \<open>Forwarding failure\<close>

text \<open>
  Claim C3: when the request parses, the cache lookup for its key is a miss and
  \<open>forwardRequest\<close> returns an error (a refused connection is the first way to fail),
  the handler passes to the client's \<open>Write\<close> exactly one byte string, the fixed 502
  response: the status line, the three header lines and the empty line, each ended by
  the two bytes carriage return (\<open>0x0D\<close>) and line feed (\<open>0x0A\<close>), then the fixed body
  text; its \<open>Content-Length\<close> is 57, the length of the fixed body; and the handler
  returns with the cache as the lookup left it, whose map is the map before the
  request: no entry is created for the key.
\<close>

theorem forwarding_failure_sends_502:
  assumes "parsed env = Inr req"
    and "getCachedResponse c (generateCacheKey req) = Inr (None, c1)"
    and "response (forwardRequest env req) = Inl e"
  shows "written (handleConnection c env) =
           [''HTTP/1.1 502 Bad Gateway'' @ [CHR 0x0D, CHR 0x0A] @
            ''Content-Type: text/plain'' @ [CHR 0x0D, CHR 0x0A] @
            ''Content-Length: 57'' @ [CHR 0x0D, CHR 0x0A] @
            ''Connection: close'' @ [CHR 0x0D, CHR 0x0A] @
            [CHR 0x0D, CHR 0x0A] @
            ''The target server is unavailable. Please try again later.''] \<and>
         written (handleConnection c env) = [badGatewayResponse] \<and>
         badGatewayBody = ''The target server is unavailable. Please try again later.'' \<and>
         length badGatewayBody = 57 \<and>
         cache_after (handleConnection c env) = Inr c1 \<and> items c1 = items c \<and>
         (\<not> dial_ok env \<longrightarrow> response (forwardRequest env req) = Inl DialFailed)"
proof -
  have w: "written (handleConnection c env) = [badGatewayResponse]"
    and ca: "cache_after (handleConnection c env) = Inr c1"
    using assms by (simp_all add: handleConnection_def Let_def)
  have it: "items c1 = items c"
    using assms(2) by (rule getCachedResponse_items)
  have d: "\<not> dial_ok env \<longrightarrow> response (forwardRequest env req) = Inl DialFailed"
    by (simp add: forwardRequest_def Let_def)
  have b: "badGatewayBody = ''The target server is unavailable. Please try again later.''"
    by (simp add: badGatewayBody_def)
  have l: "length badGatewayBody = 57"
    by (simp add: badGatewayBody_def)
  from w have w': "written (handleConnection c env) =
           [''HTTP/1.1 502 Bad Gateway'' @ [CHR 0x0D, CHR 0x0A] @
            ''Content-Type: text/plain'' @ [CHR 0x0D, CHR 0x0A] @
            ''Content-Length: 57'' @ [CHR 0x0D, CHR 0x0A] @
            ''Connection: close'' @ [CHR 0x0D, CHR 0x0A] @
            [CHR 0x0D, CHR 0x0A] @
            ''The target server is unavailable. Please try again later.'']"
    by (simp only: badGatewayResponse_bytes)
  from w' w b l ca it d show ?thesis by (intro conjI)
qed

lemma fresh_miss: "getCachedResponse (NewLRUCache n) k = Inr (None, NewLRUCache n)"
  by (simp add: getCachedResponse_def Get_def NewLRUCache_def)

lemma example_parsed: "parsed (example_env req d w) = Inr req"
  by (simp add: example_env_def)

theorem forwarding_failure_sends_502_witness:
  "parsed (example_env plain_request False True) = Inr plain_request \<and>
   getCachedResponse (NewLRUCache 2) (generateCacheKey plain_request) =
     Inr (None, NewLRUCache 2) \<and>
   response (forwardRequest (example_env plain_request False True) plain_request) =
     Inl DialFailed \<and>
   written (handleConnection (NewLRUCache 2) (example_env plain_request False True)) =
     [''HTTP/1.1 502 Bad Gateway'' @ [CHR 0x0D, CHR 0x0A] @
      ''Content-Type: text/plain'' @ [CHR 0x0D, CHR 0x0A] @
      ''Content-Length: 57'' @ [CHR 0x0D, CHR 0x0A] @
      ''Connection: close'' @ [CHR 0x0D, CHR 0x0A] @
      [CHR 0x0D, CHR 0x0A] @
      ''The target server is unavailable. Please try again later.''] \<and>
   cache_after (handleConnection (NewLRUCache 2) (example_env plain_request False True)) =
     Inr (NewLRUCache 2) \<and>
   items (NewLRUCache 2) (generateCacheKey plain_request) = None"
proof -
  have f: "response (forwardRequest (example_env plain_request False True) plain_request) =
      Inl DialFailed"
    by (simp add: forwardRequest_def example_env_def)
  have "items (NewLRUCache 2) (generateCacheKey plain_request) = None"
    by (simp add: NewLRUCache_def)
  with forwarding_failure_sends_502
    [where env = "example_env plain_request False True" and c = "NewLRUCache 2",
      OF example_parsed fresh_miss f] example_parsed f fresh_miss
  show ?thesis by simp
qed

subsection \<open>Client write failure\<close>

text \<open>
  Claim C10: when the request parses, the lookup is a miss and forwarding succeeds,
  the handler passes the assembled response to the client's \<open>Write\<close> once.  If that
  write fails the handler returns with the cache as the lookup left it, its map
  unchanged: no Put is executed.  If the write succeeds the cache is the result of the
  one Put of the response under the computed key.
\<close>

theorem client_write_failure_skips_cache:
  assumes "parsed env = Inr req"
    and "getCachedResponse c (generateCacheKey req) = Inr (None, c1)"
    and "response (forwardRequest env req) = Inr resp"
    and "prepareResponse resp = (statusLine, headers, body)"
  shows "written (handleConnection c env) = [statusLine @ headers @ CRLF @ body] \<and>
         (\<not> client_write_ok env \<longrightarrow>
            cache_after (handleConnection c env) = Inr c1 \<and> items c1 = items c) \<and>
         (client_write_ok env \<longrightarrow>
            cache_after (handleConnection c env) =
              Put c1 (generateCacheKey req)
                (Some \<lparr>Status = statusLine, Header = headers, Body = body\<rparr>))"
proof -
  have "items c1 = items c"
    using assms(2) by (rule getCachedResponse_items)
  with assms show ?thesis
    by (simp add: handleConnection_def Let_def cacheResponse_def)
qed

lemma example_forward:
  "response (forwardRequest (example_env plain_request True w) plain_request) =
     Inr example_response"
  by (simp add: forwardRequest_def example_env_def plain_request_def Let_def)

lemma example_prepare:
  "prepareResponse example_response =
     (''HTTP/1.1 200 OK'' @ CRLF, ''Content-Length: 2'' @ CRLF, ''hi'')"
  by (simp add: prepareResponse_def example_response_def headerLines_def)

theorem client_write_failure_skips_cache_witness:
  "parsed (example_env plain_request True False) = Inr plain_request \<and>
   getCachedResponse (NewLRUCache 2) (generateCacheKey plain_request) =
     Inr (None, NewLRUCache 2) \<and>
   response (forwardRequest (example_env plain_request True False) plain_request) =
     Inr example_response \<and>
   \<not> client_write_ok (example_env plain_request True False) \<and>
   written (handleConnection (NewLRUCache 2) (example_env plain_request True False)) =
     [''HTTP/1.1 200 OK'' @ CRLF @ ''Content-Length: 2'' @ CRLF @ CRLF @ ''hi''] \<and>
   cache_after (handleConnection (NewLRUCache 2) (example_env plain_request True False)) =
     Inr (NewLRUCache 2) \<and>
   client_write_ok (example_env plain_request True True) \<and>
   cache_after (handleConnection (NewLRUCache 2) (example_env plain_request True True)) =
     Put (NewLRUCache 2) (generateCacheKey plain_request)
       (Some \<lparr>Status = ''HTTP/1.1 200 OK'' @ CRLF, Header = ''Content-Length: 2'' @ CRLF,
              Body = ''hi''\<rparr>)"
proof -
  have w: "\<not> client_write_ok (example_env plain_request True False)"
    "client_write_ok (example_env plain_request True True)"
    by (simp_all add: example_env_def)
  from client_write_failure_skips_cache
      [where env = "example_env plain_request True False" and c = "NewLRUCache 2",
        OF example_parsed fresh_miss example_forward example_prepare]
    client_write_failure_skips_cache
      [where env = "example_env plain_request True True" and c = "NewLRUCache 2",
        OF example_parsed fresh_miss example_forward example_prepare]
    example_parsed fresh_miss example_forward w
  show ?thesis by simp
qed

subsection \<open>The request written to the origin\<close>

lemma origin_sent_miss:
  assumes "parsed env = Inr req"
    and "getCachedResponse c (generateCacheKey req) = Inr (None, c1)"
  shows "origin_sent (handleConnection c env) = sent (forwardRequest env req)"
  using assms by (simp add: handleConnection_def Let_def split: sum.splits prod.splits)

text \<open>
  What the handler writes to the origin on a miss, for any request, once the connection
  is open and the request body is read: a request line made of the method, \<open>URL.Path\<close>
  and the protocol; the \<open>Host\<close> header; one line for every entry of the header map, its
  values joined by a comma and a space; an empty line; the body.
\<close>

lemma origin_request_bytes:
  assumes "parsed env = Inr req"
    and "getCachedResponse c (generateCacheKey req) = Inr (None, c1)"
    and "dial_ok env"
    and "Body_req req = Inr body"
  shows "origin_sent (handleConnection c env) =
           Some (Method req @ '' '' @ Path (URL req) @ '' '' @ Proto req @ CRLF @
                 ''Host: '' @ Host req @ CRLF @
                 concat (map (\<lambda>(key, values). key @ '': '' @ Join values '', '' @ CRLF)
                   (Header_req req)) @
                 CRLF @ body)"
proof -
  have "sent (forwardRequest env req) =
      Some (Method req @ '' '' @ Path (URL req) @ '' '' @ Proto req @ CRLF @
            ''Host: '' @ Host req @ CRLF @ headerLines (Header_req req) @ CRLF @ body)"
    using assms(3,4) by (simp add: forwardRequest_def Let_def split: sum.splits)
  moreover have "origin_sent (handleConnection c env) = sent (forwardRequest env req)"
    using assms(1,2) by (rule origin_sent_miss)
  ultimately show ?thesis
    by (simp add: headerLines_def)
qed

text \<open>
  Claim C4 holds of the headers, the empty line and the body, and fails on the request
  line: the code does not forward the inbound request verbatim.  \<open>forwardRequest\<close>
  builds the request line from \<open>req.URL.Path\<close>, the decoded path without the query
  string.  On a miss with the origin reachable, the inbound request
  \<open>GET /foo?x=1 HTTP/1.1\<close> is written to the origin with the request line
  \<open>GET /foo HTTP/1.1\<close>, and the inbound \<open>GET /a%20b HTTP/1.1\<close> with the malformed request
  line \<open>GET /a b HTTP/1.1\<close>; in both cases the bytes written do not begin with the
  inbound request line.  Line ends are the bytes \<open>0x0D\<close>, \<open>0x0A\<close>.
\<close>

theorem forwarded_request_line_not_inbound:
  "origin_sent (handleConnection (NewLRUCache 2) (example_env query_request True True)) =
     Some (''GET /foo HTTP/1.1'' @ [CHR 0x0D, CHR 0x0A] @
           ''Host: example.test'' @ [CHR 0x0D, CHR 0x0A] @
           ''Accept: text/html, text/plain'' @ [CHR 0x0D, CHR 0x0A] @
           [CHR 0x0D, CHR 0x0A]) \<and>
   inboundRequestLine query_request = ''GET /foo?x=1 HTTP/1.1'' @ [CHR 0x0D, CHR 0x0A] \<and>
   take (length (inboundRequestLine query_request))
     (the (origin_sent
        (handleConnection (NewLRUCache 2) (example_env query_request True True)))) \<noteq>
     inboundRequestLine query_request \<and>
   origin_sent (handleConnection (NewLRUCache 2) (example_env escaped_request True True)) =
     Some (''GET /a b HTTP/1.1'' @ [CHR 0x0D, CHR 0x0A] @
           ''Host: example.test'' @ [CHR 0x0D, CHR 0x0A] @
           [CHR 0x0D, CHR 0x0A]) \<and>
   inboundRequestLine escaped_request = ''GET /a%20b HTTP/1.1'' @ [CHR 0x0D, CHR 0x0A] \<and>
   take (length (inboundRequestLine escaped_request))
     (the (origin_sent
        (handleConnection (NewLRUCache 2) (example_env escaped_request True True)))) \<noteq>
     inboundRequestLine escaped_request"
proof -
  have q: "origin_sent (handleConnection (NewLRUCache 2) (example_env query_request True True)) =
      Some (''GET /foo HTTP/1.1'' @ [CHR 0x0D, CHR 0x0A] @
            ''Host: example.test'' @ [CHR 0x0D, CHR 0x0A] @
            ''Accept: text/html, text/plain'' @ [CHR 0x0D, CHR 0x0A] @
            [CHR 0x0D, CHR 0x0A])"
    unfolding origin_sent_miss [OF example_parsed fresh_miss]
    by (simp add: forwardRequest_def example_env_def Let_def headerLines_def
        query_request_def CRLF_def)
  have e: "origin_sent (handleConnection (NewLRUCache 2) (example_env escaped_request True True)) =
      Some (''GET /a b HTTP/1.1'' @ [CHR 0x0D, CHR 0x0A] @
            ''Host: example.test'' @ [CHR 0x0D, CHR 0x0A] @
            [CHR 0x0D, CHR 0x0A])"
    unfolding origin_sent_miss [OF example_parsed fresh_miss]
    by (simp add: forwardRequest_def example_env_def Let_def headerLines_def
        escaped_request_def CRLF_def)
  have iq: "inboundRequestLine query_request = ''GET /foo?x=1 HTTP/1.1'' @ [CHR 0x0D, CHR 0x0A]"
    by (simp add: inboundRequestLine_def query_request_def CRLF_def)
  have ie: "inboundRequestLine escaped_request = ''GET /a%20b HTTP/1.1'' @ [CHR 0x0D, CHR 0x0A]"
    by (simp add: inboundRequestLine_def escaped_request_def CRLF_def)
  have nq: "take (length (inboundRequestLine query_request))
     (the (origin_sent
        (handleConnection (NewLRUCache 2) (example_env query_request True True)))) \<noteq>
     inboundRequestLine query_request"
    unfolding q iq by simp
  have ne: "take (length (inboundRequestLine escaped_request))
     (the (origin_sent
        (handleConnection (NewLRUCache 2) (example_env escaped_request True True)))) \<noteq>
     inboundRequestLine escaped_request"
    unfolding e ie by simp
  from q iq nq e ie ne show ?thesis by (intro conjI)
qed

subsection \<open>The cache key\<close>

lemma split_at_first:
  "c \<notin> set xs \<Longrightarrow> c \<notin> set xs' \<Longrightarrow> xs @ c # ys = xs' @ c # ys' \<Longrightarrow> xs = xs' \<and> ys = ys'"
proof (induction xs arbitrary: xs')
  case Nil
  then show ?case by (cases xs') auto
next
  case (Cons x xs)
  then show ?case by (cases xs') auto
qed

lemma split_at_last:
  assumes "c \<notin> set ys" "c \<notin> set ys'" "xs @ c # ys = xs' @ c # ys'"
  shows "xs = xs' \<and> ys = ys'"
proof -
  from assms(3) have "rev ys @ c # rev xs = rev ys' @ c # rev xs'"
    by (metis rev_append rev.simps(2) append.assoc append_Cons append_Nil)
  with assms(1,2) split_at_first [of c "rev ys" "rev ys'" "rev xs" "rev xs'"]
  show ?thesis by simp
qed

text \<open>
  Claim C5 as stated fails: the delimiter \<open>:\<close> may occur in the host and in the path.
  The request for path \<open>/x:/y\<close> on host \<open>h\<close> and the request for path \<open>/y\<close> with the
  Host header \<open>h:/x\<close> differ in path and have the same key \<open>h:/x:/y:GET\<close>.
\<close>

theorem cache_key_collision:
  "Path (URL (plain_request\<lparr>Host := ''h'', URL := \<lparr>Path = ''/x:/y'', RawQuery = []\<rparr>\<rparr>)) \<noteq>
     Path (URL (plain_request\<lparr>Host := ''h:/x'', URL := \<lparr>Path = ''/y'', RawQuery = []\<rparr>\<rparr>)) \<and>
   generateCacheKey (plain_request\<lparr>Host := ''h'', URL := \<lparr>Path = ''/x:/y'', RawQuery = []\<rparr>\<rparr>) =
     generateCacheKey (plain_request\<lparr>Host := ''h:/x'', URL := \<lparr>Path = ''/y'', RawQuery = []\<rparr>\<rparr>)"
  by (simp add: generateCacheKey_def plain_request_def)

text \<open>
  Claim C5, amended: the key is host, path and method joined by \<open>:\<close>.  Two requests
  with the same host, path and method have the same key, whatever their headers and
  query strings.  Two requests that differ in method or in path have different keys
  provided neither method contains \<open>:\<close> and either the hosts are equal, or neither host
  contains \<open>/\<close> and both paths begin with \<open>/\<close>.
\<close>

theorem cache_key_of_host_path_method:
  "(Host r1 = Host r2 \<and> Path (URL r1) = Path (URL r2) \<and> Method r1 = Method r2 \<longrightarrow>
      generateCacheKey r1 = generateCacheKey r2) \<and>
   (CHR '':'' \<notin> set (Method r1) \<and> CHR '':'' \<notin> set (Method r2) \<and>
    (Host r1 = Host r2 \<or>
     CHR ''/'' \<notin> set (Host r1) \<and> CHR ''/'' \<notin> set (Host r2) \<and>
     take 1 (Path (URL r1)) = ''/'' \<and> take 1 (Path (URL r2)) = ''/'') \<and>
    (Method r1 \<noteq> Method r2 \<or> Path (URL r1) \<noteq> Path (URL r2)) \<longrightarrow>
      generateCacheKey r1 \<noteq> generateCacheKey r2)"
proof (intro conjI impI)
  assume "Host r1 = Host r2 \<and> Path (URL r1) = Path (URL r2) \<and> Method r1 = Method r2"
  then show "generateCacheKey r1 = generateCacheKey r2"
    by (simp add: generateCacheKey_def)
next
  assume h: "CHR '':'' \<notin> set (Method r1) \<and> CHR '':'' \<notin> set (Method r2) \<and>
    (Host r1 = Host r2 \<or>
     CHR ''/'' \<notin> set (Host r1) \<and> CHR ''/'' \<notin> set (Host r2) \<and>
     take 1 (Path (URL r1)) = ''/'' \<and> take 1 (Path (URL r2)) = ''/'') \<and>
    (Method r1 \<noteq> Method r2 \<or> Path (URL r1) \<noteq> Path (URL r2))"
  show "generateCacheKey r1 \<noteq> generateCacheKey r2"
  proof
    assume "generateCacheKey r1 = generateCacheKey r2"
    then have "(Host r1 @ '':'' @ Path (URL r1)) @ CHR '':'' # Method r1 =
        (Host r2 @ '':'' @ Path (URL r2)) @ CHR '':'' # Method r2"
      by (simp add: generateCacheKey_def)
    with h split_at_last [of "CHR '':''" "Method r1" "Method r2"]
    have m: "Method r1 = Method r2"
      and e: "Host r1 @ '':'' @ Path (URL r1) = Host r2 @ '':'' @ Path (URL r2)"
      by blast+
    have "Path (URL r1) = Path (URL r2)"
    proof (cases "Host r1 = Host r2")
      case True
      with e show ?thesis by simp
    next
      case False
      with h have s: "CHR ''/'' \<notin> set (Host r1)" "CHR ''/'' \<notin> set (Host r2)"
        and t: "take 1 (Path (URL r1)) = ''/''" "take 1 (Path (URL r2)) = ''/''"
        by auto
      from t obtain q1 q2 where q: "Path (URL r1) = CHR ''/'' # q1" "Path (URL r2) = CHR ''/'' # q2"
        by (cases "Path (URL r1)"; cases "Path (URL r2)") auto
      from e have "(Host r1 @ '':'') @ CHR ''/'' # q1 = (Host r2 @ '':'') @ CHR ''/'' # q2"
        by (simp add: q)
      with s split_at_first [of "CHR ''/''" "Host r1 @ '':''" "Host r2 @ '':''" q1 q2]
      show ?thesis by (simp add: q)
    qed
    with m h show False by simp
  qed
qed

theorem cache_key_of_host_path_method_witness:
  "Host plain_request = Host query_request \<and>
   Path (URL plain_request) = Path (URL query_request) \<and>
   Method plain_request = Method query_request \<and>
   RawQuery (URL plain_request) \<noteq> RawQuery (URL query_request) \<and>
   generateCacheKey plain_request = generateCacheKey query_request \<and>
   CHR '':'' \<notin> set (Method plain_request) \<and>
   CHR '':'' \<notin> set (Method (plain_request\<lparr>Method := ''POST''\<rparr>)) \<and>
   Host plain_request = Host (plain_request\<lparr>Method := ''POST''\<rparr>) \<and>
   Method plain_request \<noteq> Method (plain_request\<lparr>Method := ''POST''\<rparr>) \<and>
   generateCacheKey plain_request \<noteq> generateCacheKey (plain_request\<lparr>Method := ''POST''\<rparr>)"
proof -
  have a: "Host plain_request = Host query_request \<and>
      Path (URL plain_request) = Path (URL query_request) \<and>
      Method plain_request = Method query_request"
    and b: "RawQuery (URL plain_request) \<noteq> RawQuery (URL query_request)"
    by (simp_all add: plain_request_def query_request_def)
  have c: "CHR '':'' \<notin> set (Method plain_request) \<and>
      CHR '':'' \<notin> set (Method (plain_request\<lparr>Method := ''POST''\<rparr>)) \<and>
      (Host plain_request = Host (plain_request\<lparr>Method := ''POST''\<rparr>) \<or>
       CHR ''/'' \<notin> set (Host plain_request) \<and>
       CHR ''/'' \<notin> set (Host (plain_request\<lparr>Method := ''POST''\<rparr>)) \<and>
       take 1 (Path (URL plain_request)) = ''/'' \<and>
       take 1 (Path (URL (plain_request\<lparr>Method := ''POST''\<rparr>))) = ''/'') \<and>
      (Method plain_request \<noteq> Method (plain_request\<lparr>Method := ''POST''\<rparr>) \<or>
       Path (URL plain_request) \<noteq> Path (URL (plain_request\<lparr>Method := ''POST''\<rparr>)))"
    by (simp add: plain_request_def)
  from cache_key_of_host_path_method [of plain_request query_request] a
  have k1: "generateCacheKey plain_request = generateCacheKey query_request"
    by blast
  from cache_key_of_host_path_method
    [of plain_request "plain_request\<lparr>Method := ''POST''\<rparr>"] c
  have k2: "generateCacheKey plain_request \<noteq>
      generateCacheKey (plain_request\<lparr>Method := ''POST''\<rparr>)"
    by blast
  from a b c k1 k2 show ?thesis
    by (simp add: plain_request_def)
qed

section \<open>The accept loop\<close>

lemma acceptLoop_outcome:
  "fst (acceptLoop evs s) = (if ErrClosed \<in> set evs then Returned None else StillAccepting)"
  by (induction evs s rule: acceptLoop.induct) auto

lemma acceptLoop_state:
  "snd (acceptLoop evs s) =
     s\<lparr>error_log := error_log s @
          concat (map (\<lambda>r. case r of OtherError msg \<Rightarrow> [''Failed to accept connection: '' @ msg]
                           | _ \<Rightarrow> [])
            (takeWhile (\<lambda>r. r \<noteq> ErrClosed) evs)),
       dispatched := dispatched s @
          concat (map (\<lambda>r. case r of Accepted conn \<Rightarrow> [conn] | _ \<Rightarrow> [])
            (takeWhile (\<lambda>r. r \<noteq> ErrClosed) evs))\<rparr>"
  by (induction evs s rule: acceptLoop.induct) auto

text \<open>
  Claim C9: run on the results of the Accept calls made so far, the loop has returned
  exactly when one of them was the error of a closed listener, and then it returned no
  error; otherwise it is still accepting (it never returns an error).  Every result
  before the first such error was handled and the loop went on: each other error is one
  line of the error log, each connection was handed to its own handler, in order.
  \<open>Start\<close> runs this loop from the empty state once the listener exists.
\<close>

theorem accept_loop_returns_on_closed_listener_only:
  "Start port None evs = acceptLoop evs \<lparr>error_log = [], dispatched = []\<rparr> \<and>
   (fst (acceptLoop evs s) = Returned None) = (ErrClosed \<in> set evs) \<and>
   (fst (acceptLoop evs s) = StillAccepting) = (ErrClosed \<notin> set evs) \<and>
   (\<forall>e. fst (acceptLoop evs s) \<noteq> Returned (Some e)) \<and>
   error_log (snd (acceptLoop evs s)) =
     error_log s @
     concat (map (\<lambda>r. case r of OtherError msg \<Rightarrow> [''Failed to accept connection: '' @ msg]
                      | _ \<Rightarrow> [])
       (takeWhile (\<lambda>r. r \<noteq> ErrClosed) evs)) \<and>
   dispatched (snd (acceptLoop evs s)) =
     dispatched s @
     concat (map (\<lambda>r. case r of Accepted conn \<Rightarrow> [conn] | _ \<Rightarrow> [])
       (takeWhile (\<lambda>r. r \<noteq> ErrClosed) evs))"
  by (simp add: acceptLoop_outcome acceptLoop_state Start_def)

theorem accept_loop_returns_on_closed_listener_only_witness:
  "fst (Start ''9000'' None [OtherError ''timeout'', ErrClosed]) = Returned None \<and>
   fst (acceptLoop [Accepted 1, OtherError ''too many open files'', Accepted 2, ErrClosed,
         Accepted 3] \<lparr>error_log = [], dispatched = []\<rparr>) = Returned None \<and>
   snd (acceptLoop [Accepted 1, OtherError ''too many open files'', Accepted 2, ErrClosed,
         Accepted 3] \<lparr>error_log = [], dispatched = []\<rparr>) =
     \<lparr>error_log = [''Failed to accept connection: too many open files''],
      dispatched = [1, 2]\<rparr> \<and>
   fst (acceptLoop [OtherError ''timeout'', Accepted 7] \<lparr>error_log = [], dispatched = []\<rparr>) =
     StillAccepting \<and>
   dispatched (snd (acceptLoop [OtherError ''timeout'', Accepted 7]
     \<lparr>error_log = [], dispatched = []\<rparr>)) = [7]"
  using accept_loop_returns_on_closed_listener_only
    [of "''9000''" "[OtherError ''timeout'', ErrClosed]" "\<lparr>error_log = [], dispatched = []\<rparr>"]
    accept_loop_returns_on_closed_listener_only
    [of "''9000''" "[Accepted 1, OtherError ''too many open files'', Accepted 2, ErrClosed, Accepted 3]"
      "\<lparr>error_log = [], dispatched = []\<rparr>"]
    accept_loop_returns_on_closed_listener_only
    [of "''9000''" "[OtherError ''timeout'', Accepted 7]" "\<lparr>error_log = [], dispatched = []\<rparr>"]
  by simp

end
